theory Spec2Isabelle
  imports Complex_Main "HOL-Library.Log_Nat" "HOL-Library.Product_Lexorder" "HOL-Library.Multiset" "HOL-Library.Sublist"
begin

section \<open>Graham scan pruning of a boundary sequence (Geo/ConvexHull/GrahamScan.cpp)\<close>

text \<open>
  The source computes with C++ \<^verbatim>\<open>double\<close>. The first part of the embedding reads every
  \<^verbatim>\<open>double\<close> as a \<^typ>\<open>real\<close>: products, differences and comparisons are exact, and
  there is neither rounding nor NaN. The part on double arithmetic further down rounds
  every operation of the orientation test to binary64, and runs the same algorithm over
  it. The unsigned member \<^verbatim>\<open>size\<close> and the container sizes are natural numbers (no
  sequence of 2^32 points is considered).
\<close>

subsection \<open>Points and boundary elements\<close>

record GeoPoint =
  longitude :: real
  latitude :: real

text \<open>
  Modelled from the spec: the subtraction of two points (\<^verbatim>\<open>GeoPoint::operator-\<close>, declared
  in Geo/GeoPoint.hpp, is not part of the sources at hand). The spec describes it as
  yielding a planar delta with the same two components.
\<close>

definition GeoPoint_minus :: "GeoPoint \<Rightarrow> GeoPoint \<Rightarrow> GeoPoint" where
  "GeoPoint_minus p q =
     \<lparr>longitude = longitude p - longitude q, latitude = latitude p - latitude q\<rparr>"

text \<open>
  Modelled from the spec: a boundary element (\<^verbatim>\<open>SearchPoint\<close>, declared in
  Geo/SearchPoint.hpp) carries a location and an arbitrary payload that the algorithm
  copies along and never looks at.
\<close>

record 'p SearchPoint =
  location :: GeoPoint
  payload :: 'p

definition GetLocation :: "'p SearchPoint \<Rightarrow> GeoPoint" where
  "GetLocation sp = location sp"

subsection \<open>Orientation primitive\<close>

definition Sign :: "real \<Rightarrow> real \<Rightarrow> int" where
  "Sign val tol =
     (if val > tol then 1
      else if val < - tol then - 1
      else 0)"

definition Direction :: "GeoPoint \<Rightarrow> GeoPoint \<Rightarrow> GeoPoint \<Rightarrow> real \<Rightarrow> int" where
  "Direction p0 p1 p2 tol =
     (let delta_a = GeoPoint_minus p0 p1;
          delta_b = GeoPoint_minus p2 p1;
          a = longitude delta_a * latitude delta_b;
          b = longitude delta_b * latitude delta_a;
          tol' = (if tol < 0 then max \<bar>a\<bar> \<bar>b\<bar> / 10 else tol)
      in Sign (a - b) tol')"

text \<open>
  The orientation test as the specification words it: the two products, the symmetric
  dead zone, and the effective tolerance chosen by the sign of the given one.
\<close>

definition spec_Sign :: "real \<Rightarrow> real \<Rightarrow> int" where
  "spec_Sign v t = (if v > t then 1 else if v < - t then - 1 else 0)"

definition spec_product_a :: "GeoPoint \<Rightarrow> GeoPoint \<Rightarrow> GeoPoint \<Rightarrow> real" where
  "spec_product_a p0 p1 p2 =
     longitude (GeoPoint_minus p0 p1) * latitude (GeoPoint_minus p2 p1)"

definition spec_product_b :: "GeoPoint \<Rightarrow> GeoPoint \<Rightarrow> GeoPoint \<Rightarrow> real" where
  "spec_product_b p0 p1 p2 =
     longitude (GeoPoint_minus p2 p1) * latitude (GeoPoint_minus p0 p1)"

definition spec_tolerance :: "GeoPoint \<Rightarrow> GeoPoint \<Rightarrow> GeoPoint \<Rightarrow> real \<Rightarrow> real" where
  "spec_tolerance p0 p1 p2 tol =
     (if 0 \<le> tol then tol
      else max \<bar>spec_product_a p0 p1 p2\<bar> \<bar>spec_product_b p0 p1 p2\<bar> / 10)"

definition spec_Direction :: "GeoPoint \<Rightarrow> GeoPoint \<Rightarrow> GeoPoint \<Rightarrow> real \<Rightarrow> int" where
  "spec_Direction p0 p1 p2 tol =
     spec_Sign (spec_product_a p0 p1 p2 - spec_product_b p0 p1 p2)
       (spec_tolerance p0 p1 p2 tol)"

subsection \<open>The algorithm instance\<close>

datatype error = UndefinedBehaviour | AssertionFailed

record 'p GrahamScan =
  raw_vector :: "'p SearchPoint list"
  size_u :: nat
  tolerance :: real
  left :: "'p SearchPoint"
  right :: "'p SearchPoint"
  lower_partition_points :: "'p SearchPoint list"
  upper_partition_points :: "'p SearchPoint list"
  lower_hull :: "'p SearchPoint list"
  upper_hull :: "'p SearchPoint list"

text \<open>
  The constructor stores the sequence, its size and the tolerance. The members
  \<^verbatim>\<open>left\<close> and \<^verbatim>\<open>right\<close> are default-constructed there; their content is whatever
  the two extra arguments say, and the four vectors start empty.
\<close>

definition GrahamScan_init ::
  "'p SearchPoint list \<Rightarrow> real \<Rightarrow> 'p SearchPoint \<Rightarrow> 'p SearchPoint \<Rightarrow> 'p GrahamScan" where
  "GrahamScan_init sps sign_tolerance l0 r0 =
     \<lparr>raw_vector = sps, size_u = length sps, tolerance = sign_tolerance,
      left = l0, right = r0,
      lower_partition_points = [], upper_partition_points = [],
      lower_hull = [], upper_hull = []\<rparr>"

subsection \<open>Partitioning\<close>

text \<open>The comparison handed to \<^verbatim>\<open>raw_points.sort\<close>.\<close>

definition sort_compare :: "'p SearchPoint \<Rightarrow> 'p SearchPoint \<Rightarrow> bool" where
  "sort_compare sp1 sp2 =
     (let gp1 = GetLocation sp1; gp2 = GetLocation sp2
      in if longitude gp1 < longitude gp2 then True
         else if longitude gp1 = longitude gp2 then latitude gp1 < latitude gp2
         else False)"

text \<open>
  \<^verbatim>\<open>std::list::sort\<close> is a stable sort. The comparison is the strict lexicographic
  order of the pair (longitude, latitude), so the sorted list is the stable sort by
  that key.
\<close>

definition sort_position :: "'p SearchPoint \<Rightarrow> real \<times> real" where
  "sort_position sp = (longitude (GetLocation sp), latitude (GetLocation sp))"

definition sort_raw_points :: "'p SearchPoint list \<Rightarrow> 'p SearchPoint list" where
  "sort_raw_points sps = sort_key sort_position sps"

text \<open>
  The loop over the sorted elements between the two extremes: \<open>loclast\<close> is the last
  distinct location, and the two push_back calls append to the members.
\<close>

fun partition_loop ::
  "GeoPoint \<Rightarrow> 'p SearchPoint list \<Rightarrow> 'p GrahamScan \<Rightarrow> 'p GrahamScan" where
  "partition_loop loclast [] g = g"
| "partition_loop loclast (i # js) g =
     (if longitude loclast \<noteq> longitude (GetLocation i) \<or>
         latitude loclast \<noteq> latitude (GetLocation i)
      then
        (let dir = Direction (GetLocation (left g)) (GetLocation (right g))
                     (GetLocation i) (tolerance g)
         in if dir < 0
            then partition_loop (GetLocation i) js
                   (g\<lparr>upper_partition_points := upper_partition_points g @ [i]\<rparr>)
            else partition_loop (GetLocation i) js
                   (g\<lparr>lower_partition_points := lower_partition_points g @ [i]\<rparr>))
      else partition_loop loclast js g)"

text \<open>
  \<^verbatim>\<open>front()\<close> and \<^verbatim>\<open>back()\<close> of an empty list, and stepping the iterator past the end
  of a one-element list, are undefined behaviour: both are error branches here.
\<close>

definition PartitionPoints :: "'p GrahamScan \<Rightarrow> error + 'p GrahamScan" where
  "PartitionPoints g =
     (let raw_points = sort_raw_points (raw_vector g)
      in if length raw_points < 2 then Inl UndefinedBehaviour
         else
           (let g1 = g\<lparr>left := hd raw_points, right := last raw_points\<rparr>;
                between = butlast (tl raw_points);
                loclast = GetLocation (left g1)
            in Inr (partition_loop loclast between g1)))"

subsection \<open>Building the two half hulls\<close>

text \<open>\<^verbatim>\<open>output.erase(output.begin() + k)\<close>.\<close>

definition erase_at :: "'a list \<Rightarrow> nat \<Rightarrow> 'a list" where
  "erase_at xs k = take k xs @ drop (Suc k) xs"

text \<open>The inner \<^verbatim>\<open>while (output.size() >= 3)\<close> loop, with the flag it sets.\<close>

function restore_convexity ::
  "real \<Rightarrow> int \<Rightarrow> 'p SearchPoint list \<Rightarrow> bool \<Rightarrow> 'p SearchPoint list \<times> bool" where
  "restore_convexity tol factor output pruned =
     (if length output \<ge> 3 then
        (let end = length output - 1
         in if factor * Direction (GetLocation (output ! (end - 2)))
                          (GetLocation (output ! end))
                          (GetLocation (output ! (end - 1))) tol > 0
            then (output, pruned)
            else restore_convexity tol factor (erase_at output (end - 1)) True)
      else (output, pruned))"
  by pat_completeness auto
termination
  by (relation "measure (\<lambda>(tol, factor, output, pruned). length output)")
     (auto simp: erase_at_def)

declare restore_convexity.simps [simp del]

text \<open>The outer \<^verbatim>\<open>for (const auto &i : input)\<close> loop.\<close>

fun construction_loop ::
  "real \<Rightarrow> int \<Rightarrow> 'p SearchPoint list \<Rightarrow> 'p SearchPoint list \<Rightarrow> bool
     \<Rightarrow> 'p SearchPoint list \<times> bool" where
  "construction_loop tol factor [] output pruned = (output, pruned)"
| "construction_loop tol factor (i # is) output pruned =
     (case restore_convexity tol factor (output @ [i]) pruned of
        (output', pruned') \<Rightarrow> construction_loop tol factor is output' pruned')"

text \<open>
  \<^verbatim>\<open>BuildHalfHull\<close> receives both vectors by reference: it returns the flag together
  with the input as it leaves it (\<^verbatim>\<open>right\<close> appended) and the output.
\<close>

definition BuildHalfHull ::
  "'p GrahamScan \<Rightarrow> 'p SearchPoint list \<Rightarrow> 'p SearchPoint list \<Rightarrow> int
     \<Rightarrow> bool \<times> 'p SearchPoint list \<times> 'p SearchPoint list" where
  "BuildHalfHull g input output factor =
     (let input1 = input @ [right g];
          output1 = output @ [left g]
      in case construction_loop (tolerance g) factor input1 output1 False of
           (output2, pruned) \<Rightarrow> (pruned, input1, output2))"

definition BuildHull :: "'p GrahamScan \<Rightarrow> bool \<times> 'p GrahamScan" where
  "BuildHull g =
     (case BuildHalfHull g (lower_partition_points g) (lower_hull g) 1 of
        (lower_pruned, lower_in, lower_out) \<Rightarrow>
          (let g1 = g\<lparr>lower_partition_points := lower_in, lower_hull := lower_out\<rparr>
           in case BuildHalfHull g1 (upper_partition_points g1) (upper_hull g1) (- 1) of
                (upper_pruned, upper_in, upper_out) \<Rightarrow>
                  (lower_pruned \<or> upper_pruned,
                   g1\<lparr>upper_partition_points := upper_in, upper_hull := upper_out\<rparr>)))"

subsection \<open>The entry point\<close>

text \<open>\<^verbatim>\<open>for (unsigned i = 0; i + 1 < lower_hull.size(); i++) res.push_back(lower_hull[i])\<close>\<close>

function copy_lower ::
  "nat \<Rightarrow> 'a list \<Rightarrow> 'a list \<Rightarrow> 'a list" where
  "copy_lower i vec res =
     (if i + 1 < length vec then copy_lower (i + 1) vec (res @ [vec ! i]) else res)"
  by pat_completeness auto
termination
  by (relation "measure (\<lambda>(i, vec, res). length vec - i)") auto

declare copy_lower.simps [simp del]

text \<open>\<^verbatim>\<open>for (unsigned i = upper_hull.size() - 1; i >= 1; i--) res.push_back(upper_hull[i])\<close>\<close>

fun copy_upper :: "nat \<Rightarrow> 'a list \<Rightarrow> 'a list \<Rightarrow> 'a list" where
  "copy_upper 0 vec res = res"
| "copy_upper (Suc i) vec res = copy_upper i vec (res @ [vec ! Suc i])"

text \<open>
  An empty \<^verbatim>\<open>upper_hull\<close> would make the start index of the second loop wrap around and
  the loop read out of range; a failing \<^verbatim>\<open>assert\<close> aborts. Both are error branches.
\<close>

definition PruneInterior :: "'p GrahamScan \<Rightarrow> error + (bool \<times> 'p GrahamScan)" where
  "PruneInterior g =
     (if size_u g < 3 then Inr (False, g)
      else
        (case PartitionPoints g of
           Inl e \<Rightarrow> Inl e
         | Inr g1 \<Rightarrow>
             (case BuildHull g1 of
                (pruned, g2) \<Rightarrow>
                  if \<not> pruned then Inr (False, g2)
                  else if upper_hull g2 = [] then Inl UndefinedBehaviour
                  else
                    (let res = copy_lower 0 (lower_hull g2) [];
                         res = copy_upper (length (upper_hull g2) - 1) (upper_hull g2) res
                     in if length res \<le> size_u g2
                        then Inr (True, g2\<lparr>raw_vector := res\<rparr>)
                        else Inl AssertionFailed))))"

section \<open>Notions used to state the properties\<close>

subsection \<open>The test of the inner loop\<close>

text \<open>
  \<open>turn_ok\<close> is the test of the inner loop on three elements that follow each other
  in the output; \<open>chain_ok\<close> says that every three consecutive elements of a chain
  pass it.
\<close>

definition turn_ok :: "real \<Rightarrow> int \<Rightarrow> 'p SearchPoint \<Rightarrow> 'p SearchPoint \<Rightarrow> 'p SearchPoint \<Rightarrow> bool" where
  "turn_ok tol factor a b c \<longleftrightarrow>
     factor * Direction (GetLocation a) (GetLocation c) (GetLocation b) tol > 0"

definition chain_ok :: "real \<Rightarrow> int \<Rightarrow> 'p SearchPoint list \<Rightarrow> bool" where
  "chain_ok tol factor xs \<longleftrightarrow>
     (\<forall>i. i + 2 < length xs \<longrightarrow> turn_ok tol factor (xs ! i) (xs ! (i + 1)) (xs ! (i + 2)))"

subsection \<open>The stages of one run, as functions of the input sequence\<close>

text \<open>
  The elements the partition loop does not skip: those whose location differs from the
  last distinct location seen before them.
\<close>

fun retained :: "GeoPoint \<Rightarrow> 'p SearchPoint list \<Rightarrow> 'p SearchPoint list" where
  "retained loclast [] = []"
| "retained loclast (i # js) =
     (if GetLocation i = loclast then retained loclast js
      else i # retained (GetLocation i) js)"

text \<open>
  The same elements as the specification words its invariant: those whose location
  differs from the location of their predecessor in the sorted order, where the
  predecessor of the first one is \<open>l\<close>.
\<close>

definition spec_collapse :: "'p SearchPoint \<Rightarrow> 'p SearchPoint list \<Rightarrow> 'p SearchPoint list" where
  "spec_collapse l js =
     map snd (filter (\<lambda>(prev, e). GetLocation e \<noteq> GetLocation prev) (zip (l # js) js))"

text \<open>
  The first and the last element of the sorted list, the elements between them, and what
  the two loops make of them for a given input sequence and tolerance.
\<close>

definition extreme_left :: "'p SearchPoint list \<Rightarrow> 'p SearchPoint" where
  "extreme_left sps = hd (sort_raw_points sps)"

definition extreme_right :: "'p SearchPoint list \<Rightarrow> 'p SearchPoint" where
  "extreme_right sps = last (sort_raw_points sps)"

definition between :: "'p SearchPoint list \<Rightarrow> 'p SearchPoint list" where
  "between sps = butlast (tl (sort_raw_points sps))"

definition is_upper :: "'p SearchPoint list \<Rightarrow> real \<Rightarrow> 'p SearchPoint \<Rightarrow> bool" where
  "is_upper sps tol e \<longleftrightarrow>
     Direction (GetLocation (extreme_left sps)) (GetLocation (extreme_right sps))
       (GetLocation e) tol < 0"

definition kept :: "'p SearchPoint list \<Rightarrow> 'p SearchPoint list" where
  "kept sps = retained (GetLocation (extreme_left sps)) (between sps)"

definition lower_points :: "'p SearchPoint list \<Rightarrow> real \<Rightarrow> 'p SearchPoint list" where
  "lower_points sps tol = filter (\<lambda>e. \<not> is_upper sps tol e) (kept sps)"

definition upper_points :: "'p SearchPoint list \<Rightarrow> real \<Rightarrow> 'p SearchPoint list" where
  "upper_points sps tol = filter (is_upper sps tol) (kept sps)"

definition lower_build :: "'p SearchPoint list \<Rightarrow> real \<Rightarrow> 'p SearchPoint list \<times> bool" where
  "lower_build sps tol =
     construction_loop tol 1 (lower_points sps tol @ [extreme_right sps]) [extreme_left sps] False"

definition upper_build :: "'p SearchPoint list \<Rightarrow> real \<Rightarrow> 'p SearchPoint list \<times> bool" where
  "upper_build sps tol =
     construction_loop tol (- 1) (upper_points sps tol @ [extreme_right sps]) [extreme_left sps] False"

text \<open>
  The instance after \<open>PartitionPoints\<close>, the instance after \<open>BuildHull\<close>, and the
  sequence the two copy loops put together.
\<close>

definition partitioned :: "'p SearchPoint list \<Rightarrow> real \<Rightarrow> 'p GrahamScan" where
  "partitioned sps tol =
     \<lparr>raw_vector = sps, size_u = length sps, tolerance = tol,
      left = extreme_left sps, right = extreme_right sps,
      lower_partition_points = lower_points sps tol,
      upper_partition_points = upper_points sps tol,
      lower_hull = [], upper_hull = []\<rparr>"

definition built :: "'p SearchPoint list \<Rightarrow> real \<Rightarrow> 'p GrahamScan" where
  "built sps tol =
     \<lparr>raw_vector = sps, size_u = length sps, tolerance = tol,
      left = extreme_left sps, right = extreme_right sps,
      lower_partition_points = lower_points sps tol @ [extreme_right sps],
      upper_partition_points = upper_points sps tol @ [extreme_right sps],
      lower_hull = fst (lower_build sps tol), upper_hull = fst (upper_build sps tol)\<rparr>"

definition reassembled :: "'p SearchPoint list \<Rightarrow> real \<Rightarrow> 'p SearchPoint list" where
  "reassembled sps tol =
     butlast (fst (lower_build sps tol)) @ rev (tl (fst (upper_build sps tol)))"

subsection \<open>Plane geometry\<close>

text \<open>
  Twice the signed area of the triangle \<open>a b c\<close> (positive when \<open>c\<close> is to the left of
  the line from \<open>a\<close> to \<open>b\<close>, longitude as abscissa), and the order of the sort on
  locations.
\<close>

definition signed_area :: "GeoPoint \<Rightarrow> GeoPoint \<Rightarrow> GeoPoint \<Rightarrow> real" where
  "signed_area a b c =
     (longitude b - longitude a) * (latitude c - latitude a) -
     (latitude b - latitude a) * (longitude c - longitude a)"

definition lex_less :: "GeoPoint \<Rightarrow> GeoPoint \<Rightarrow> bool" where
  "lex_less p q \<longleftrightarrow>
     longitude p < longitude q \<or> (longitude p = longitude q \<and> latitude p < latitude q)"

text \<open>
  A point is strictly inside the convex hull of a set of points when in every direction
  some point of the set lies strictly beyond it. A point that has a line through it with
  the whole set on one closed side is not.
\<close>

definition strictly_inside_hull :: "GeoPoint \<Rightarrow> GeoPoint set \<Rightarrow> bool" where
  "strictly_inside_hull p S \<longleftrightarrow>
     (\<forall>dlon dlat. dlon \<noteq> 0 \<or> dlat \<noteq> 0 \<longrightarrow>
        (\<exists>q\<in>S. 0 < dlon * (longitude q - longitude p) + dlat * (latitude q - latitude p)))"

subsection \<open>Sample inputs\<close>

text \<open>
  The square with an interior point of the specification's example, an instance after a
  run on it, a triangle, and a sequence with repeated locations.
\<close>

definition sample_point :: "real \<Rightarrow> real \<Rightarrow> nat \<Rightarrow> nat SearchPoint" where
  "sample_point x y n = \<lparr>location = \<lparr>longitude = x, latitude = y\<rparr>, payload = n\<rparr>"

definition square_with_centre :: "nat SearchPoint list" where
  "square_with_centre =
     [sample_point 0 0 0, sample_point 0 10 1, sample_point 10 10 2, sample_point 10 0 3,
      sample_point 5 5 4]"

definition square_pruned :: "nat GrahamScan" where
  "square_pruned =
     \<lparr>raw_vector = [sample_point 0 0 0, sample_point 10 0 3, sample_point 10 10 2,
                    sample_point 0 10 1],
      size_u = 5, tolerance = 0,
      left = sample_point 0 0 0, right = sample_point 10 10 2,
      lower_partition_points = [sample_point 5 5 4, sample_point 10 0 3, sample_point 10 10 2],
      upper_partition_points = [sample_point 0 10 1, sample_point 10 10 2],
      lower_hull = [sample_point 0 0 0, sample_point 10 0 3, sample_point 10 10 2],
      upper_hull = [sample_point 0 0 0, sample_point 0 10 1, sample_point 10 10 2]\<rparr>"

definition triangle :: "nat SearchPoint list" where
  "triangle = [sample_point 0 0 0, sample_point 1 1 1, sample_point 2 0 2]"

definition with_duplicates :: "nat SearchPoint list" where
  "with_duplicates =
     [sample_point 0 0 0, sample_point 1 1 1, sample_point 1 1 2, sample_point 2 0 3,
      sample_point 0 0 4, sample_point 1 (- 1) 5]"

definition with_duplicates_partitioned :: "nat GrahamScan" where
  "with_duplicates_partitioned =
     \<lparr>raw_vector = with_duplicates, size_u = 6, tolerance = 0,
      left = sample_point 0 0 0, right = sample_point 2 0 3,
      lower_partition_points = [sample_point 1 (- 1) 5],
      upper_partition_points = [sample_point 1 1 1],
      lower_hull = [], upper_hull = []\<rparr>"

section \<open>The algorithm in double arithmetic\<close>

subsection \<open>Rounding to double precision\<close>

text \<open>
  The source evaluates \<^verbatim>\<open>Direction\<close> in \<^verbatim>\<open>double\<close>: every difference, every product and
  the division by ten is rounded to the nearest binary64 value, ties going to the even
  significand. \<open>round_double\<close> is that rounding as a function on the reals. A value is
  scaled by 2^1074 to find its binade; the spacing of the doubles around it is 2^e with
  e the binade's exponent less 52, and never less than -1074, the spacing of the
  subnormal numbers. Overflow to infinity and NaN are left out: coordinates are angles,
  far below 2^1023. Comparisons of doubles are exact.
\<close>

definition pow2 :: "int \<Rightarrow> real" where
  "pow2 e = (if 0 \<le> e then 2 ^ nat e else 1 / 2 ^ nat (- e))"

definition round_half_even :: "real \<Rightarrow> int" where
  "round_half_even y =
     (let f = \<lfloor>y\<rfloor>; d = y - of_int f
      in if d < 1 / 2 then f
         else if 1 / 2 < d then f + 1
         else if even f then f else f + 1)"

definition round_double :: "real \<Rightarrow> real" where
  "round_double x =
     (let n = \<lfloor>\<bar>x\<bar> * 2 ^ 1074\<rfloor>;
          e = max (bitlen n - 1127) (- 1074)
      in of_int (round_half_even (x / pow2 e)) * pow2 e)"

text \<open>
  Modelled from the spec: the subtraction of two points (\<^verbatim>\<open>GeoPoint::operator-\<close>, declared
  in Geo/GeoPoint.hpp, is not part of the sources at hand), computed in \<^verbatim>\<open>double\<close>: each
  component is the rounded difference.
\<close>

definition GeoPoint_minus_double :: "GeoPoint \<Rightarrow> GeoPoint \<Rightarrow> GeoPoint" where
  "GeoPoint_minus_double p q =
     \<lparr>longitude = round_double (longitude p - longitude q),
      latitude = round_double (latitude p - latitude q)\<rparr>"

text \<open>\<^verbatim>\<open>Direction\<close> as the machine computes it, on points whose coordinates are doubles.\<close>

definition Direction_double :: "GeoPoint \<Rightarrow> GeoPoint \<Rightarrow> GeoPoint \<Rightarrow> real \<Rightarrow> int" where
  "Direction_double p0 p1 p2 tol =
     (let delta_a = GeoPoint_minus_double p0 p1;
          delta_b = GeoPoint_minus_double p2 p1;
          a = round_double (longitude delta_a * latitude delta_b);
          b = round_double (longitude delta_b * latitude delta_a);
          tol' = (if tol < 0 then round_double (max \<bar>a\<bar> \<bar>b\<bar> / 10) else tol)
      in Sign (round_double (a - b)) tol')"

subsection \<open>The run over a given orientation test\<close>

text \<open>
  The member functions once more, with the orientation test they call as a parameter
  and nothing else changed: with \<open>Direction_double\<close> for it they are the source run in
  \<^verbatim>\<open>double\<close>, with \<open>Direction\<close> the definitions above. \<open>agrees\<close> says that a test
  decides all triples of a set of locations as \<open>Direction\<close> does.
\<close>

type_synonym direction_test = "GeoPoint \<Rightarrow> GeoPoint \<Rightarrow> GeoPoint \<Rightarrow> real \<Rightarrow> int"

fun partition_loop_with ::
  "direction_test \<Rightarrow> GeoPoint \<Rightarrow> 'p SearchPoint list \<Rightarrow> 'p GrahamScan \<Rightarrow> 'p GrahamScan" where
  "partition_loop_with dir loclast [] g = g"
| "partition_loop_with dir loclast (i # js) g =
     (if longitude loclast \<noteq> longitude (GetLocation i) \<or>
         latitude loclast \<noteq> latitude (GetLocation i)
      then
        (let d = dir (GetLocation (left g)) (GetLocation (right g))
                   (GetLocation i) (tolerance g)
         in if d < 0
            then partition_loop_with dir (GetLocation i) js
                   (g\<lparr>upper_partition_points := upper_partition_points g @ [i]\<rparr>)
            else partition_loop_with dir (GetLocation i) js
                   (g\<lparr>lower_partition_points := lower_partition_points g @ [i]\<rparr>))
      else partition_loop_with dir loclast js g)"

definition PartitionPoints_with ::
  "direction_test \<Rightarrow> 'p GrahamScan \<Rightarrow> error + 'p GrahamScan" where
  "PartitionPoints_with dir g =
     (let raw_points = sort_raw_points (raw_vector g)
      in if length raw_points < 2 then Inl UndefinedBehaviour
         else
           (let g1 = g\<lparr>left := hd raw_points, right := last raw_points\<rparr>;
                between = butlast (tl raw_points);
                loclast = GetLocation (left g1)
            in Inr (partition_loop_with dir loclast between g1)))"

function restore_convexity_with ::
  "direction_test \<Rightarrow> real \<Rightarrow> int \<Rightarrow> 'p SearchPoint list \<Rightarrow> bool
     \<Rightarrow> 'p SearchPoint list \<times> bool" where
  "restore_convexity_with dir tol factor output pruned =
     (if length output \<ge> 3 then
        (let end = length output - 1
         in if factor * dir (GetLocation (output ! (end - 2)))
                          (GetLocation (output ! end))
                          (GetLocation (output ! (end - 1))) tol > 0
            then (output, pruned)
            else restore_convexity_with dir tol factor (erase_at output (end - 1)) True)
      else (output, pruned))"
  by pat_completeness auto
termination
  by (relation "measure (\<lambda>(dir, tol, factor, output, pruned). length output)")
     (auto simp: erase_at_def)

declare restore_convexity_with.simps [simp del]

fun construction_loop_with ::
  "direction_test \<Rightarrow> real \<Rightarrow> int \<Rightarrow> 'p SearchPoint list \<Rightarrow> 'p SearchPoint list \<Rightarrow> bool
     \<Rightarrow> 'p SearchPoint list \<times> bool" where
  "construction_loop_with dir tol factor [] output pruned = (output, pruned)"
| "construction_loop_with dir tol factor (i # is) output pruned =
     (case restore_convexity_with dir tol factor (output @ [i]) pruned of
        (output', pruned') \<Rightarrow> construction_loop_with dir tol factor is output' pruned')"

definition BuildHalfHull_with ::
  "direction_test \<Rightarrow> 'p GrahamScan \<Rightarrow> 'p SearchPoint list \<Rightarrow> 'p SearchPoint list \<Rightarrow> int
     \<Rightarrow> bool \<times> 'p SearchPoint list \<times> 'p SearchPoint list" where
  "BuildHalfHull_with dir g input output factor =
     (let input1 = input @ [right g];
          output1 = output @ [left g]
      in case construction_loop_with dir (tolerance g) factor input1 output1 False of
           (output2, pruned) \<Rightarrow> (pruned, input1, output2))"

definition BuildHull_with :: "direction_test \<Rightarrow> 'p GrahamScan \<Rightarrow> bool \<times> 'p GrahamScan" where
  "BuildHull_with dir g =
     (case BuildHalfHull_with dir g (lower_partition_points g) (lower_hull g) 1 of
        (lower_pruned, lower_in, lower_out) \<Rightarrow>
          (let g1 = g\<lparr>lower_partition_points := lower_in, lower_hull := lower_out\<rparr>
           in case BuildHalfHull_with dir g1 (upper_partition_points g1) (upper_hull g1) (- 1) of
                (upper_pruned, upper_in, upper_out) \<Rightarrow>
                  (lower_pruned \<or> upper_pruned,
                   g1\<lparr>upper_partition_points := upper_in, upper_hull := upper_out\<rparr>)))"

definition PruneInterior_with ::
  "direction_test \<Rightarrow> 'p GrahamScan \<Rightarrow> error + (bool \<times> 'p GrahamScan)" where
  "PruneInterior_with dir g =
     (if size_u g < 3 then Inr (False, g)
      else
        (case PartitionPoints_with dir g of
           Inl e \<Rightarrow> Inl e
         | Inr g1 \<Rightarrow>
             (case BuildHull_with dir g1 of
                (pruned, g2) \<Rightarrow>
                  if \<not> pruned then Inr (False, g2)
                  else if upper_hull g2 = [] then Inl UndefinedBehaviour
                  else
                    (let res = copy_lower 0 (lower_hull g2) [];
                         res = copy_upper (length (upper_hull g2) - 1) (upper_hull g2) res
                     in if length res \<le> size_u g2
                        then Inr (True, g2\<lparr>raw_vector := res\<rparr>)
                        else Inl AssertionFailed))))"

definition agrees :: "direction_test \<Rightarrow> real \<Rightarrow> GeoPoint set \<Rightarrow> bool" where
  "agrees dir tol S \<longleftrightarrow>
     (\<forall>p0\<in>S. \<forall>p1\<in>S. \<forall>p2\<in>S. dir p0 p1 p2 tol = Direction p0 p1 p2 tol)"

text \<open>
  Coordinates that are integers of magnitude at most 2^24: every intermediate value of
  \<^verbatim>\<open>Direction\<close> is then an integer below 2^53 and no operation rounds.
\<close>

definition small_integer_point :: "GeoPoint \<Rightarrow> bool" where
  "small_integer_point p \<longleftrightarrow>
     of_int \<lfloor>longitude p\<rfloor> = longitude p \<and> \<bar>longitude p\<bar> \<le> 2 ^ 24 \<and>
     of_int \<lfloor>latitude p\<rfloor> = latitude p \<and> \<bar>latitude p\<bar> \<le> 2 ^ 24"

subsection \<open>An input on which rounding changes a turn\<close>

text \<open>
  The doubles nearest to (0.5, 0.1), (0.2, 0.5), (0.0, 0.3), (0.6, 0.9) and (0.3, 0.4),
  written as fractions, the boundary sequence made of them, and the state after
  \<^verbatim>\<open>PruneInterior\<close> has run on it in \<^verbatim>\<open>double\<close> with tolerance 0.
\<close>

definition rounding_p0 :: GeoPoint where
  "rounding_p0 =
     \<lparr>longitude = 1 / 2,
      latitude = 3602879701896397 / 36028797018963968\<rparr>"

definition rounding_p1 :: GeoPoint where
  "rounding_p1 =
     \<lparr>longitude = 3602879701896397 / 18014398509481984,
      latitude = 1 / 2\<rparr>"

definition rounding_p2 :: GeoPoint where
  "rounding_p2 =
     \<lparr>longitude = 0,
      latitude = 5404319552844595 / 18014398509481984\<rparr>"

definition rounding_p3 :: GeoPoint where
  "rounding_p3 =
     \<lparr>longitude = 5404319552844595 / 9007199254740992,
      latitude = 8106479329266893 / 9007199254740992\<rparr>"

definition rounding_p4 :: GeoPoint where
  "rounding_p4 =
     \<lparr>longitude = 5404319552844595 / 18014398509481984,
      latitude = 3602879701896397 / 9007199254740992\<rparr>"

definition rounding_e0 :: "nat SearchPoint" where
  "rounding_e0 = \<lparr>location = rounding_p0, payload = 0\<rparr>"

definition rounding_e1 :: "nat SearchPoint" where
  "rounding_e1 = \<lparr>location = rounding_p1, payload = 1\<rparr>"

definition rounding_e2 :: "nat SearchPoint" where
  "rounding_e2 = \<lparr>location = rounding_p2, payload = 2\<rparr>"

definition rounding_e3 :: "nat SearchPoint" where
  "rounding_e3 = \<lparr>location = rounding_p3, payload = 3\<rparr>"

definition rounding_e4 :: "nat SearchPoint" where
  "rounding_e4 = \<lparr>location = rounding_p4, payload = 4\<rparr>"

definition rounding_input :: "nat SearchPoint list" where
  "rounding_input = [rounding_e0, rounding_e1, rounding_e2, rounding_e3, rounding_e4]"

definition rounding_result :: "nat GrahamScan" where
  "rounding_result =
     \<lparr>raw_vector = [rounding_e2, rounding_e0, rounding_e3, rounding_e1],
      size_u = 5, tolerance = 0,
      left = rounding_e2, right = rounding_e3,
      lower_partition_points = [rounding_e4, rounding_e0, rounding_e3],
      upper_partition_points = [rounding_e1, rounding_e3],
      lower_hull = [rounding_e2, rounding_e0, rounding_e3],
      upper_hull = [rounding_e2, rounding_e1, rounding_e3]\<rparr>"

section \<open>Auxiliary facts\<close>

subsection \<open>The sort\<close>

text \<open>
  The comparison of the source is the strict order of the sort keys, and
  \<open>sort_raw_points\<close> is a stable sort for it: a permutation of the input, in which no
  element is followed by one the comparison puts before it, and in which elements
  with equal keys keep their order.
\<close>

lemma sort_compare_position:
  "sort_compare sp1 sp2 \<longleftrightarrow> sort_position sp1 < sort_position sp2"
  by (auto simp: sort_compare_def sort_position_def less_prod_def Let_def)

lemma sort_raw_points_permutes: "mset (sort_raw_points sps) = mset sps"
  by (simp add: sort_raw_points_def)

lemma sort_raw_points_ordered:
  "sorted_wrt (\<lambda>a b. \<not> sort_compare b a) (sort_raw_points sps)"
proof -
  have "sorted (map sort_position (sort_raw_points sps))"
    by (simp add: sort_raw_points_def)
  then have "sorted_wrt (\<lambda>a b. sort_position a \<le> sort_position b) (sort_raw_points sps)"
    by (simp add: sorted_wrt_map)
  moreover have "(\<lambda>a b. sort_position a \<le> sort_position b)
                   = (\<lambda>a b :: 'a SearchPoint. \<not> sort_compare b a)"
    by (simp add: fun_eq_iff sort_compare_position not_less)
  ultimately show ?thesis by simp
qed

lemma sort_raw_points_stable:
  "filter (\<lambda>e. sort_position e = k) (sort_raw_points sps)
     = filter (\<lambda>e. sort_position e = k) sps"
  unfolding sort_raw_points_def by (rule sort_key_stable)

subsection \<open>The two copy loops\<close>

lemma copy_lower_eq:
  "i \<le> length vec \<Longrightarrow> copy_lower i vec res = res @ drop i (butlast vec)"
proof (induction i vec res rule: copy_lower.induct)
  case (1 i vec res)
  show ?case
  proof (cases "i + 1 < length vec")
    case True
    then have "i < length (butlast vec)" by simp
    then have "drop i (butlast vec) = butlast vec ! i # drop (Suc i) (butlast vec)"
      by (simp only: Cons_nth_drop_Suc)
    then have "drop i (butlast vec) = vec ! i # drop (Suc i) (butlast vec)"
      using \<open>i < length (butlast vec)\<close> by (simp add: nth_butlast)
    with True 1 show ?thesis
      by (subst copy_lower.simps) simp
  next
    case False
    with 1 show ?thesis
      by (subst copy_lower.simps) simp
  qed
qed

lemma copy_upper_eq:
  "n < length vec \<Longrightarrow> copy_upper n vec res = res @ rev (take n (tl vec))"
proof (induction n arbitrary: res)
  case 0
  then show ?case by simp
next
  case (Suc n)
  then have "take (Suc n) (tl vec) = take n (tl vec) @ [vec ! Suc n]"
    by (simp add: take_Suc_conv_app_nth nth_tl)
  with Suc show ?case by simp
qed

lemma copy_upper_whole:
  "vec \<noteq> [] \<Longrightarrow> copy_upper (length vec - Suc 0) vec res = res @ rev (tl vec)"
  by (simp add: copy_upper_eq)

subsection \<open>The inner loop\<close>

lemma restore_convexity_shape:
  "restore_convexity tol factor (xs @ [z]) pruned = (out, pruned') \<Longrightarrow>
   \<exists>k. k \<le> length xs \<and> (xs \<noteq> [] \<longrightarrow> 1 \<le> k) \<and> out = take k xs @ [z] \<and>
       (pruned' \<longleftrightarrow> pruned \<or> k < length xs) \<and>
       (2 \<le> k \<longrightarrow> turn_ok tol factor (xs ! (k - 2)) (xs ! (k - 1)) z)"
proof (induction "length xs" arbitrary: xs pruned)
  case 0
  then show ?case
    by (subst (asm) restore_convexity.simps) auto
next
  case (Suc n)
  show ?case
  proof (cases "length xs \<ge> 2")
    case False
    with Suc.hyps(2) have "length xs = 1" by simp
    with Suc.prems show ?thesis
      by (subst (asm) restore_convexity.simps) auto
  next
    case two: True
    let ?end = "length (xs @ [z]) - 1"
    have e: "?end = length xs" by simp
    have n0: "(xs @ [z]) ! (?end - 2) = xs ! (length xs - 2)"
      using two by (simp add: nth_append)
    have n1: "(xs @ [z]) ! (?end - 1) = xs ! (length xs - 1)"
      using two by (simp add: nth_append)
    have n2: "(xs @ [z]) ! ?end = z" by simp
    show ?thesis
    proof (cases "turn_ok tol factor (xs ! (length xs - 2)) (xs ! (length xs - 1)) z")
      case True
      then have "restore_convexity tol factor (xs @ [z]) pruned = (xs @ [z], pruned)"
        using two n0 n1 n2
        by (subst restore_convexity.simps) (simp add: turn_ok_def Let_def del: nth_append_length)
      with Suc.prems have "out = xs @ [z]" "pruned' = pruned" by simp_all
      with True two show ?thesis
        by (intro exI[of _ "length xs"]) auto
    next
      case False
      have er: "erase_at (xs @ [z]) (?end - 1) = butlast xs @ [z]"
        using two by (simp add: erase_at_def butlast_conv_take)
      have "restore_convexity tol factor (xs @ [z]) pruned
              = restore_convexity tol factor (butlast xs @ [z]) True"
        using two False n0 n1 n2 er
        by (subst restore_convexity.simps) (simp add: turn_ok_def Let_def del: nth_append_length)
      with Suc.prems have r: "restore_convexity tol factor (butlast xs @ [z]) True = (out, pruned')"
        by simp
      have "n = length (butlast xs)" using Suc.hyps(2) by simp
      from Suc.hyps(1)[OF this r] obtain k where k:
        "k \<le> length (butlast xs)" "butlast xs \<noteq> [] \<longrightarrow> 1 \<le> k"
        "out = take k (butlast xs) @ [z]" "pruned' \<longleftrightarrow> True \<or> k < length (butlast xs)"
        "2 \<le> k \<longrightarrow> turn_ok tol factor (butlast xs ! (k - 2)) (butlast xs ! (k - 1)) z"
        by blast
      have "k \<le> length xs - 1" using k(1) by simp
      then have "take k (butlast xs) = take k xs"
        by (simp add: butlast_conv_take min_absorb1)
      moreover have "2 \<le> k \<longrightarrow> butlast xs ! (k - 2) = xs ! (k - 2) \<and> butlast xs ! (k - 1) = xs ! (k - 1)"
        using k(1) by (auto simp: nth_butlast)
      moreover have "butlast xs \<noteq> []" using two by (cases xs) auto
      ultimately show ?thesis
        using k two by (intro exI[of _ k]) auto
    qed
  qed
qed

lemma chain_ok_short: "length xs < 3 \<Longrightarrow> chain_ok tol factor xs"
  by (simp add: chain_ok_def)

lemma chain_ok_take_snoc:
  assumes "chain_ok tol factor xs" "k \<le> length xs"
    and "2 \<le> k \<longrightarrow> turn_ok tol factor (xs ! (k - 2)) (xs ! (k - 1)) z"
  shows "chain_ok tol factor (take k xs @ [z])"
  unfolding chain_ok_def
proof (intro allI impI)
  fix i assume i: "i + 2 < length (take k xs @ [z])"
  with assms(2) have ik: "i + 2 \<le> k" by simp
  show "turn_ok tol factor ((take k xs @ [z]) ! i) ((take k xs @ [z]) ! (i + 1))
          ((take k xs @ [z]) ! (i + 2))"
  proof (cases "i + 2 = k")
    case True
    then have "(take k xs @ [z]) ! i = xs ! (k - 2)" "(take k xs @ [z]) ! (i + 1) = xs ! (k - 1)"
      "(take k xs @ [z]) ! (i + 2) = z"
      using assms(2) by (auto simp: nth_append)
    with True assms(3) show ?thesis by simp
  next
    case False
    with ik have lt: "i + 2 < k" by simp
    then have "(take k xs @ [z]) ! i = xs ! i" "(take k xs @ [z]) ! (i + 1) = xs ! (i + 1)"
      "(take k xs @ [z]) ! (i + 2) = xs ! (i + 2)"
      using assms(2) by (auto simp: nth_append)
    moreover have "i + 2 < length xs" using lt assms(2) by simp
    ultimately show ?thesis using assms(1) by (simp add: chain_ok_def)
  qed
qed

lemma restore_convexity_keeps:
  assumes "length xs \<ge> 2 \<longrightarrow> turn_ok tol factor (xs ! (length xs - 2)) (xs ! (length xs - 1)) z"
  shows "restore_convexity tol factor (xs @ [z]) pruned = (xs @ [z], pruned)"
proof (cases "length xs \<ge> 2")
  case True
  then have "(xs @ [z]) ! (length (xs @ [z]) - 1 - 2) = xs ! (length xs - 2)"
    "(xs @ [z]) ! (length (xs @ [z]) - 1 - 1) = xs ! (length xs - 1)"
    "(xs @ [z]) ! (length (xs @ [z]) - 1) = z"
    by (simp_all add: nth_append)
  with True assms show ?thesis
    by (subst restore_convexity.simps) (simp add: turn_ok_def Let_def del: nth_append_length)
next
  case False
  then show ?thesis
    by (subst restore_convexity.simps) simp
qed

subsection \<open>The outer loop\<close>

lemma construction_loop_length:
  "construction_loop tol factor input out pruned = (out', pruned') \<Longrightarrow>
   length out' \<le> length out + length input \<and>
   (pruned' \<longleftrightarrow> pruned \<or> length out' < length out + length input)"
proof (induction input arbitrary: out pruned)
  case Nil
  then show ?case by simp
next
  case (Cons i "is")
  obtain o1 p1 where r: "restore_convexity tol factor (out @ [i]) pruned = (o1, p1)"
    by (cases "restore_convexity tol factor (out @ [i]) pruned")
  from restore_convexity_shape[OF r] obtain k where k:
    "k \<le> length out" "o1 = take k out @ [i]" "p1 \<longleftrightarrow> pruned \<or> k < length out"
    by blast
  from Cons.prems r have "construction_loop tol factor is o1 p1 = (out', pruned')" by simp
  from Cons.IH[OF this] have
    "length out' \<le> length o1 + length is"
    "pruned' \<longleftrightarrow> p1 \<or> length out' < length o1 + length is" by simp_all
  moreover have "length o1 = k + 1" using k by simp
  ultimately show ?case using k by auto
qed

lemma construction_loop_shape:
  "construction_loop tol factor input (l # ys) pruned = (out', pruned') \<Longrightarrow> input \<noteq> [] \<Longrightarrow>
   \<exists>zs. out' = l # zs @ [last input] \<and> subseq zs (ys @ butlast input)"
proof (induction input arbitrary: ys pruned)
  case Nil
  then show ?case by simp
next
  case (Cons i "is")
  obtain o1 p1 where r: "restore_convexity tol factor ((l # ys) @ [i]) pruned = (o1, p1)"
    by (cases "restore_convexity tol factor ((l # ys) @ [i]) pruned")
  from restore_convexity_shape[OF r] obtain k where k:
    "k \<le> length (l # ys)" "1 \<le> k" "o1 = take k (l # ys) @ [i]"
    by auto
  then obtain k' where k': "k = Suc k'" by (cases k) auto
  with k have o1: "o1 = l # (take k' ys @ [i])" by simp
  from Cons.prems r have c: "construction_loop tol factor is o1 p1 = (out', pruned')" by simp
  show ?case
  proof (cases "is = []")
    case True
    with c o1 have "out' = l # take k' ys @ [i]" by simp
    moreover have "subseq (take k' ys) ys"
      by (metis append_take_drop_id subseq_rev_drop_many subseq_order.order_refl)
    ultimately show ?thesis using True by auto
  next
    case False
    from Cons.IH[OF c[unfolded o1] False] obtain zs where
      zs: "out' = l # zs @ [last is]" "subseq zs ((take k' ys @ [i]) @ butlast is)" by blast
    have "subseq (take k' ys) ys"
      by (metis append_take_drop_id subseq_rev_drop_many subseq_order.order_refl)
    then have "subseq ((take k' ys @ [i]) @ butlast is) (ys @ i # butlast is)"
      by (simp add: list_emb_append_mono)
    with zs(2) have "subseq zs (ys @ i # butlast is)"
      using subseq_order.order_trans by blast
    with zs(1) False show ?thesis by auto
  qed
qed

lemma construction_loop_chain_ok:
  "construction_loop tol factor input out pruned = (out', pruned') \<Longrightarrow>
   chain_ok tol factor out \<Longrightarrow> chain_ok tol factor out'"
proof (induction input arbitrary: out pruned)
  case Nil
  then show ?case by simp
next
  case (Cons i "is")
  obtain o1 p1 where r: "restore_convexity tol factor (out @ [i]) pruned = (o1, p1)"
    by (cases "restore_convexity tol factor (out @ [i]) pruned")
  from restore_convexity_shape[OF r] obtain k where k:
    "k \<le> length out" "o1 = take k out @ [i]"
    "2 \<le> k \<longrightarrow> turn_ok tol factor (out ! (k - 2)) (out ! (k - 1)) i"
    by blast
  have "chain_ok tol factor o1"
    unfolding k(2) using Cons.prems(2) k(1) k(3) by (rule chain_ok_take_snoc)
  moreover from Cons.prems r have "construction_loop tol factor is o1 p1 = (out', pruned')"
    by simp
  ultimately show ?case using Cons.IH by blast
qed

lemma chain_ok_prefix: "chain_ok tol factor (xs @ ys) \<Longrightarrow> chain_ok tol factor xs"
  unfolding chain_ok_def
proof (intro allI impI)
  fix i assume a: "\<forall>i. i + 2 < length (xs @ ys) \<longrightarrow>
      turn_ok tol factor ((xs @ ys) ! i) ((xs @ ys) ! (i + 1)) ((xs @ ys) ! (i + 2))"
    and i: "i + 2 < length xs"
  then have "turn_ok tol factor ((xs @ ys) ! i) ((xs @ ys) ! (i + 1)) ((xs @ ys) ! (i + 2))"
    by simp
  with i show "turn_ok tol factor (xs ! i) (xs ! (i + 1)) (xs ! (i + 2))"
    by (simp add: nth_append)
qed

lemma construction_loop_fixed:
  "chain_ok tol factor (out @ input) \<Longrightarrow>
   construction_loop tol factor input out pruned = (out @ input, pruned)"
proof (induction input arbitrary: out)
  case Nil
  then show ?case by simp
next
  case (Cons i "is")
  have c: "chain_ok tol factor ((out @ [i]) @ is)" using Cons.prems by simp
  then have c1: "chain_ok tol factor (out @ [i])" by (rule chain_ok_prefix)
  have "length out \<ge> 2 \<longrightarrow>
          turn_ok tol factor (out ! (length out - 2)) (out ! (length out - 1)) i"
  proof
    assume two: "length out \<ge> 2"
    then have "length out - 2 + 2 < length (out @ [i])" by simp
    with c1 have "turn_ok tol factor ((out @ [i]) ! (length out - 2))
        ((out @ [i]) ! (length out - 2 + 1)) ((out @ [i]) ! (length out - 2 + 2))"
      unfolding chain_ok_def by blast
    moreover have "length out - 2 + 1 = length out - 1" "length out - 2 + 2 = length out"
      using two by simp_all
    ultimately show "turn_ok tol factor (out ! (length out - 2)) (out ! (length out - 1)) i"
      using two by (simp add: nth_append)
  qed
  then have "restore_convexity tol factor (out @ [i]) pruned = (out @ [i], pruned)"
    by (rule restore_convexity_keeps)
  with Cons.IH[OF c] show ?case by simp
qed

lemma GeoPoint_differs:
  "(longitude p \<noteq> longitude q \<or> latitude p \<noteq> latitude q) \<longleftrightarrow> q \<noteq> (p :: GeoPoint)"
  by (cases p, cases q) auto

lemma partition_loop_Cons:
  "partition_loop loclast (i # js) g =
     (if GetLocation i \<noteq> loclast
      then
        (if Direction (GetLocation (left g)) (GetLocation (right g))
              (GetLocation i) (tolerance g) < 0
         then partition_loop (GetLocation i) js
                (g\<lparr>upper_partition_points := upper_partition_points g @ [i]\<rparr>)
         else partition_loop (GetLocation i) js
                (g\<lparr>lower_partition_points := lower_partition_points g @ [i]\<rparr>))
      else partition_loop loclast js g)"
  by (simp only: partition_loop.simps GeoPoint_differs Let_def)

lemma partition_loop_eq:
  "partition_loop loclast js g =
     g\<lparr>lower_partition_points := lower_partition_points g @
          filter (\<lambda>e. \<not> Direction (GetLocation (left g)) (GetLocation (right g))
                        (GetLocation e) (tolerance g) < 0) (retained loclast js),
       upper_partition_points := upper_partition_points g @
          filter (\<lambda>e. Direction (GetLocation (left g)) (GetLocation (right g))
                        (GetLocation e) (tolerance g) < 0) (retained loclast js)\<rparr>"
proof (induction js arbitrary: loclast g)
  case Nil
  then show ?case by simp
next
  case (Cons i js)
  show ?case
    by (simp add: partition_loop_Cons Cons.IH del: partition_loop.simps)
qed

lemma is_upper_fun:
  "is_upper sps tol =
     (\<lambda>e. Direction (GetLocation (extreme_left sps)) (GetLocation (extreme_right sps))
            (GetLocation e) tol < 0)"
  by (simp add: fun_eq_iff is_upper_def)

lemma length_sort_raw_points [simp]: "length (sort_raw_points sps) = length sps"
  by (simp add: sort_raw_points_def)

lemma PartitionPoints_init:
  "2 \<le> length sps \<Longrightarrow>
   PartitionPoints (GrahamScan_init sps tol l0 r0) = Inr (partitioned sps tol)"
  by (simp add: PartitionPoints_def GrahamScan_init_def partitioned_def Let_def
      partition_loop_eq extreme_left_def extreme_right_def lower_points_def upper_points_def
      kept_def between_def is_upper_fun)

lemma BuildHull_partitioned:
  "BuildHull (partitioned sps tol) =
     (snd (lower_build sps tol) \<or> snd (upper_build sps tol), built sps tol)"
  by (simp add: BuildHull_def BuildHalfHull_def partitioned_def built_def Let_def
      lower_build_def upper_build_def split: prod.splits)

lemma length_retained: "length (retained loclast js) \<le> length js"
  by (induction js arbitrary: loclast) (auto simp: le_SucI)

lemma length_between: "length (between sps) = length sps - 2"
  by (simp add: between_def)

lemma length_partition:
  "length (lower_points sps tol) + length (upper_points sps tol) = length (kept sps)"
  unfolding lower_points_def upper_points_def
  using sum_length_filter_compl[of "is_upper sps tol" "kept sps"] by simp

lemma length_kept: "length (kept sps) \<le> length sps - 2"
  unfolding kept_def using length_retained[of _ "between sps"] by (simp add: length_between)

lemma half_hull_shape:
  assumes "construction_loop tol factor (chain @ [r]) [l] False = (out, pruned)"
  obtains zs where "out = l # zs @ [r]" "subseq zs chain"
    "pruned \<longleftrightarrow> length zs < length chain" "chain_ok tol factor out"
proof -
  from construction_loop_shape[OF assms] obtain zs where
    zs: "out = l # zs @ [r]" "subseq zs chain" by auto
  from construction_loop_length[OF assms] zs(1) have "pruned \<longleftrightarrow> length zs < length chain"
    by auto
  moreover have "chain_ok tol factor out"
    using construction_loop_chain_ok[OF assms] by (simp add: chain_ok_short)
  ultimately show ?thesis using zs that by blast
qed

lemma lower_build_shape:
  obtains lo where "fst (lower_build sps tol) = extreme_left sps # lo @ [extreme_right sps]"
    "subseq lo (lower_points sps tol)"
    "snd (lower_build sps tol) \<longleftrightarrow> length lo < length (lower_points sps tol)"
    "chain_ok tol 1 (fst (lower_build sps tol))"
proof -
  have "construction_loop tol 1 (lower_points sps tol @ [extreme_right sps]) [extreme_left sps] False
          = (fst (lower_build sps tol), snd (lower_build sps tol))"
    by (simp add: lower_build_def)
  from half_hull_shape[OF this] show ?thesis using that by blast
qed

lemma upper_build_shape:
  obtains up where "fst (upper_build sps tol) = extreme_left sps # up @ [extreme_right sps]"
    "subseq up (upper_points sps tol)"
    "snd (upper_build sps tol) \<longleftrightarrow> length up < length (upper_points sps tol)"
    "chain_ok tol (- 1) (fst (upper_build sps tol))"
proof -
  have "construction_loop tol (- 1) (upper_points sps tol @ [extreme_right sps])
          [extreme_left sps] False
          = (fst (upper_build sps tol), snd (upper_build sps tol))"
    by (simp add: upper_build_def)
  from half_hull_shape[OF this] show ?thesis using that by blast
qed

lemma length_reassembled:
  "3 \<le> length sps \<Longrightarrow> length (reassembled sps tol) \<le> length sps"
  "3 \<le> length sps \<Longrightarrow> snd (lower_build sps tol) \<or> snd (upper_build sps tol) \<Longrightarrow>
     length (reassembled sps tol) < length sps"
proof -
  obtain lo where lo: "fst (lower_build sps tol) = extreme_left sps # lo @ [extreme_right sps]"
    "subseq lo (lower_points sps tol)"
    "snd (lower_build sps tol) \<longleftrightarrow> length lo < length (lower_points sps tol)"
    by (rule lower_build_shape)
  obtain up where up: "fst (upper_build sps tol) = extreme_left sps # up @ [extreme_right sps]"
    "subseq up (upper_points sps tol)"
    "snd (upper_build sps tol) \<longleftrightarrow> length up < length (upper_points sps tol)"
    by (rule upper_build_shape)
  have len: "length (reassembled sps tol) = length lo + length up + 2"
    by (simp add: reassembled_def lo(1) up(1) butlast_append)
  have l1: "length lo \<le> length (lower_points sps tol)"
    using lo(2) by (rule list_emb_length)
  have l2: "length up \<le> length (upper_points sps tol)"
    using up(2) by (rule list_emb_length)
  have tot: "length (lower_points sps tol) + length (upper_points sps tol) \<le> length sps - 2"
    using length_partition[of sps tol] length_kept[of sps] by simp
  show "3 \<le> length sps \<Longrightarrow> length (reassembled sps tol) \<le> length sps"
    using len l1 l2 tot by simp
  show "3 \<le> length sps \<Longrightarrow> snd (lower_build sps tol) \<or> snd (upper_build sps tol) \<Longrightarrow>
     length (reassembled sps tol) < length sps"
    using len l1 l2 tot lo(3) up(3) by auto
qed

lemma upper_hull_built_nonempty: "fst (upper_build sps tol) \<noteq> []"
  using upper_build_shape[of sps tol] by (metis list.distinct(1))

lemma copy_loops_built:
  "copy_upper (length (upper_hull (built sps tol)) - Suc 0) (upper_hull (built sps tol))
     (copy_lower 0 (lower_hull (built sps tol)) []) = reassembled sps tol"
  by (simp add: built_def copy_lower_eq copy_upper_whole upper_hull_built_nonempty
      reassembled_def)

lemma PruneInterior_init:
  assumes "3 \<le> length sps"
  shows "PruneInterior (GrahamScan_init sps tol l0 r0) =
     (if snd (lower_build sps tol) \<or> snd (upper_build sps tol)
      then Inr (True, (built sps tol)\<lparr>raw_vector := reassembled sps tol\<rparr>)
      else Inr (False, built sps tol))"
proof -
  have s: "\<not> size_u (GrahamScan_init sps tol l0 r0) < 3"
    using assms by (simp add: GrahamScan_init_def)
  have p: "PartitionPoints (GrahamScan_init sps tol l0 r0) = Inr (partitioned sps tol)"
    using assms by (simp add: PartitionPoints_init)
  have u: "upper_hull (built sps tol) \<noteq> []"
    by (simp add: built_def upper_hull_built_nonempty)
  have z: "size_u (built sps tol) = length sps" by (simp add: built_def)
  show ?thesis
    unfolding PruneInterior_def
    using s p u z length_reassembled(1)[OF assms, of tol]
    by (simp add: BuildHull_partitioned copy_loops_built Let_def)
qed

lemma PruneInterior_small:
  "length sps < 3 \<Longrightarrow>
   PruneInterior (GrahamScan_init sps tol l0 r0) = Inr (False, GrahamScan_init sps tol l0 r0)"
  by (simp add: PruneInterior_def GrahamScan_init_def)

lemmas run_defs =
  PruneInterior_def GrahamScan_init_def PartitionPoints_def sort_raw_points_def
  sort_position_def GetLocation_def sample_point_def Let_def BuildHull_def BuildHalfHull_def
  Direction_def Sign_def GeoPoint_minus_def restore_convexity.simps erase_at_def
  copy_lower.simps less_eq_prod_def

lemma square_run:
  "PruneInterior (GrahamScan_init square_with_centre 0 (sample_point 0 0 9) (sample_point 0 0 9))
     = Inr (True, square_pruned)"
  by (simp add: square_with_centre_def square_pruned_def run_defs)

lemma raw_vector_init: "raw_vector (GrahamScan_init sps tol l0 r0) = sps"
  by (simp add: GrahamScan_init_def)

subsection \<open>The sorted list and the retained elements\<close>

lemma sorted_sort_raw_points: "sorted (map sort_position (sort_raw_points sps))"
  by (simp add: sort_raw_points_def)

lemma sort_raw_points_split:
  assumes "2 \<le> length sps"
  shows "sort_raw_points sps = extreme_left sps # between sps @ [extreme_right sps]"
proof -
  have len: "length (sort_raw_points sps) = length sps" by simp
  obtain x xs where s: "sort_raw_points sps = x # xs"
    using assms len by (cases "sort_raw_points sps") auto
  with assms len have "length xs \<ge> 1" by simp
  then have "xs \<noteq> []" by auto
  then have "xs = butlast xs @ [last xs]" by simp
  with s \<open>xs \<noteq> []\<close> show ?thesis
    by (simp add: extreme_left_def extreme_right_def between_def)
qed

lemma sort_position_eq_iff:
  "sort_position a = sort_position b \<longleftrightarrow> GetLocation a = GetLocation b"
  by (cases "GetLocation a", cases "GetLocation b") (auto simp: sort_position_def)

lemma retained_subseq: "subseq (retained loclast js) js"
  by (induction js arbitrary: loclast) auto

lemma retained_strict:
  "sorted (map sort_position (x # js)) \<Longrightarrow>
   sorted_wrt (<) (map sort_position (x # retained (GetLocation x) js))"
proof (induction js arbitrary: x)
  case Nil
  then show ?case by simp
next
  case (Cons i js)
  show ?case
  proof (cases "GetLocation i = GetLocation x")
    case True
    have "sorted (map sort_position (x # js))" using Cons.prems by simp
    from Cons.IH[OF this] True show ?thesis by simp
  next
    case False
    have "sorted (map sort_position (i # js))" using Cons.prems by simp
    from Cons.IH[OF this]
    have ih: "sorted_wrt (<) (map sort_position (i # retained (GetLocation i) js))" .
    have "sort_position x \<le> sort_position i" using Cons.prems by simp
    moreover have "sort_position x \<noteq> sort_position i"
      using False by (simp add: sort_position_eq_iff)
    ultimately have lt: "sort_position x < sort_position i" by simp
    then have "\<forall>e\<in>set (retained (GetLocation i) js). sort_position x < sort_position e"
      using ih by auto
    with lt ih False show ?thesis by simp
  qed
qed

lemma retained_spec_collapse:
  "GetLocation x = loclast \<Longrightarrow> retained loclast js = spec_collapse x js"
proof (induction js arbitrary: x loclast)
  case Nil
  then show ?case by (simp add: spec_collapse_def)
next
  case (Cons i js)
  have "retained (GetLocation i) js = spec_collapse i js"
    by (rule Cons.IH) simp
  moreover have "GetLocation i = loclast \<Longrightarrow> retained loclast js = spec_collapse i js"
    by (rule Cons.IH) simp
  ultimately show ?case
    using Cons.prems by (auto simp: spec_collapse_def)
qed

lemma retained_remdups_adj:
  "loclast # map GetLocation (retained loclast js) = remdups_adj (loclast # map GetLocation js)"
  by (induction js arbitrary: loclast) auto

lemma partitioned_chains:
  "upper_partition_points (partitioned sps tol) = filter (is_upper sps tol) (kept sps)"
  "lower_partition_points (partitioned sps tol) = filter (\<lambda>e. \<not> is_upper sps tol e) (kept sps)"
  "left (partitioned sps tol) = extreme_left sps"
  "right (partitioned sps tol) = extreme_right sps"
  by (simp_all add: partitioned_def upper_points_def lower_points_def)

lemma PartitionPoints_result:
  assumes "PartitionPoints (GrahamScan_init sps tol l0 r0) = Inr g"
  shows "2 \<le> length sps" "g = partitioned sps tol"
proof -
  show two: "2 \<le> length sps"
    using assms by (auto simp: PartitionPoints_def Let_def GrahamScan_init_def split: if_splits)
  show "g = partitioned sps tol"
    using assms PartitionPoints_init[OF two, of tol l0 r0] by simp
qed

lemma kept_strict:
  assumes "2 \<le> length sps"
  shows "sorted_wrt (<) (map sort_position (extreme_left sps # kept sps))"
proof -
  have "sorted (map sort_position (extreme_left sps # between sps @ [extreme_right sps]))"
    using sorted_sort_raw_points[of sps] sort_raw_points_split[OF assms] by simp
  then have "sorted (map sort_position (extreme_left sps # between sps))"
    by (simp add: sorted_append)
  then show ?thesis unfolding kept_def by (rule retained_strict)
qed

lemma distinct_locations_of_strict:
  assumes "sorted_wrt (<) (map sort_position xs)"
  shows "distinct (map GetLocation xs)"
proof -
  have "distinct (map sort_position xs)"
    using assms strict_sorted_iff by blast
  moreover have "map sort_position xs = map (\<lambda>p. (longitude p, latitude p)) (map GetLocation xs)"
    by (simp add: sort_position_def)
  ultimately have "distinct (map (\<lambda>p. (longitude p, latitude p)) (map GetLocation xs))"
    by simp
  then show ?thesis
    using distinct_map[of "\<lambda>p. (longitude p, latitude p)" "map GetLocation xs"] by blast
qed

subsection \<open>The half hulls are strictly ascending in the sort order\<close>

lemma subseq_set_subset: "subseq xs ys \<Longrightarrow> set xs \<subseteq> set ys"
proof
  fix x assume "subseq xs ys" "x \<in> set xs"
  then show "x \<in> set ys"
    using list_emb_set[of "(=)" xs ys x] by auto
qed

lemma subseq_sorted_wrt:
  "subseq xs ys \<Longrightarrow> sorted_wrt P ys \<Longrightarrow> sorted_wrt P xs"
proof (induction rule: list_emb.induct)
  case (list_emb_Nil ys)
  then show ?case by simp
next
  case (list_emb_Cons xs ys y)
  then show ?case by simp
next
  case (list_emb_Cons2 x y xs ys)
  then have "set xs \<subseteq> set ys" by (simp add: subseq_set_subset)
  with list_emb_Cons2 show ?case by auto
qed

lemma Direction_same_location: "Direction p q q tol = 0"
  by (simp add: Direction_def GeoPoint_minus_def Sign_def Let_def)

lemma turn_ok_locations: "turn_ok tol factor a b c \<Longrightarrow> GetLocation b \<noteq> GetLocation c"
proof
  assume t: "turn_ok tol factor a b c" and e: "GetLocation b = GetLocation c"
  from t show False
    unfolding turn_ok_def e by (simp add: Direction_same_location)
qed

lemma is_upper_location:
  "GetLocation a = GetLocation b \<Longrightarrow> is_upper sps tol a = is_upper sps tol b"
  by (simp add: is_upper_def)

lemma between_bounds:
  assumes "2 \<le> length sps" "e \<in> set (between sps)"
  shows "sort_position (extreme_left sps) \<le> sort_position e"
    and "sort_position e \<le> sort_position (extreme_right sps)"
proof -
  have s: "sorted (map sort_position (extreme_left sps # between sps @ [extreme_right sps]))"
    using sorted_sort_raw_points[of sps] sort_raw_points_split[OF assms(1)] by simp
  from s assms(2) show "sort_position (extreme_left sps) \<le> sort_position e" by auto
  from s assms(2) show "sort_position e \<le> sort_position (extreme_right sps)"
    by (auto simp: sorted_append)
qed

lemma kept_subset_between: "set (kept sps) \<subseteq> set (between sps)"
  unfolding kept_def by (rule subseq_set_subset) (rule retained_subseq)

lemma chain_last_turn:
  assumes "chain_ok tol factor (l # zs @ [z, r])"
  shows "GetLocation z \<noteq> GetLocation r"
proof -
  let ?xs = "l # zs @ [z, r]"
  have len: "length zs + 2 < length ?xs" by simp
  have "?xs ! (length zs + 1) = z" "?xs ! (length zs + 2) = r"
    by (simp_all add: nth_append)
  moreover from assms len have
    "turn_ok tol factor (?xs ! length zs) (?xs ! (length zs + 1)) (?xs ! (length zs + 2))"
    unfolding chain_ok_def by blast
  ultimately show ?thesis using turn_ok_locations by metis
qed

lemma chain_strict:
  assumes two: "2 \<le> length sps"
    and sub: "subseq zs (kept sps)"
    and ok: "chain_ok tol factor (extreme_left sps # zs @ [extreme_right sps])"
    and ne: "kept sps \<noteq> []"
  shows "sorted_wrt (<) (map sort_position (extreme_left sps # zs @ [extreme_right sps]))"
proof -
  let ?L = "extreme_left sps" and ?R = "extreme_right sps"
  have "subseq (?L # zs) (?L # kept sps)" using sub by simp
  then have "subseq (map sort_position (?L # zs)) (map sort_position (?L # kept sps))"
    by (rule subseq_map)
  then have lz: "sorted_wrt (<) (map sort_position (?L # zs))"
    using kept_strict[OF two] by (rule subseq_sorted_wrt)
  have up: "sort_position e \<le> sort_position ?R" if "e \<in> set (kept sps)" for e
    using that kept_subset_between between_bounds(2)[OF two] by blast
  have "sort_position e < sort_position ?R" if e: "e \<in> set (?L # zs)" for e
  proof (cases "zs = []")
    case True
    with e have "e = ?L" by simp
    obtain k where k: "k \<in> set (kept sps)" using ne by (cases "kept sps") auto
    have "sort_position ?L < sort_position k"
      using kept_strict[OF two] k by auto
    with up[OF k] \<open>e = ?L\<close> show ?thesis by simp
  next
    case False
    then obtain zs' z where z: "zs = zs' @ [z]" by (metis rev_exhaust)
    have "GetLocation z \<noteq> GetLocation ?R"
      using ok unfolding z by (intro chain_last_turn[of tol factor ?L zs' z ?R]) simp
    then have "sort_position z \<noteq> sort_position ?R"
      by (simp add: sort_position_eq_iff)
    moreover have "z \<in> set (kept sps)" using sub z subseq_set_subset by fastforce
    ultimately have zr: "sort_position z < sort_position ?R" using up by fastforce
    have "sort_position e \<le> sort_position z"
    proof (cases "e = z")
      case True
      then show ?thesis by simp
    next
      case False
      with e z have "e \<in> set (?L # zs')" by auto
      moreover have "sorted_wrt (<) (map sort_position ((?L # zs') @ [z]))"
        using lz z by simp
      ultimately have "sort_position e < sort_position z"
        unfolding map_append sorted_wrt_append by auto
      then show ?thesis by simp
    qed
    with zr show ?thesis by simp
  qed
  then have "\<forall>k\<in>set (map sort_position (?L # zs)). k < sort_position ?R" by auto
  with lz have "sorted_wrt (<) (map sort_position (?L # zs) @ [sort_position ?R])"
    unfolding sorted_wrt_append by simp
  then show ?thesis by simp
qed

lemma pruned_kept_nonempty:
  assumes "snd (lower_build sps tol) \<or> snd (upper_build sps tol)"
  shows "kept sps \<noteq> []"
proof
  assume e: "kept sps = []"
  then have l: "lower_points sps tol = []" and u: "upper_points sps tol = []"
    by (simp_all add: lower_points_def upper_points_def)
  obtain lo where lo: "fst (lower_build sps tol) = extreme_left sps # lo @ [extreme_right sps]"
    "subseq lo (lower_points sps tol)"
    "snd (lower_build sps tol) \<longleftrightarrow> length lo < length (lower_points sps tol)"
    "chain_ok tol 1 (fst (lower_build sps tol))"
    by (rule lower_build_shape)
  obtain up where up: "fst (upper_build sps tol) = extreme_left sps # up @ [extreme_right sps]"
    "subseq up (upper_points sps tol)"
    "snd (upper_build sps tol) \<longleftrightarrow> length up < length (upper_points sps tol)"
    "chain_ok tol (- 1) (fst (upper_build sps tol))"
    by (rule upper_build_shape)
  show False using assms l u lo(3) up(3) by simp
qed

lemma hull_facts:
  assumes three: "3 \<le> length sps"
    and pr: "snd (lower_build sps tol) \<or> snd (upper_build sps tol)"
  obtains lo up where
    "fst (lower_build sps tol) = extreme_left sps # lo @ [extreme_right sps]"
    "fst (upper_build sps tol) = extreme_left sps # up @ [extreme_right sps]"
    "reassembled sps tol = extreme_left sps # lo @ extreme_right sps # rev up"
    "sorted_wrt (<) (map sort_position (extreme_left sps # lo @ [extreme_right sps]))"
    "sorted_wrt (<) (map sort_position (extreme_left sps # up @ [extreme_right sps]))"
    "\<forall>e\<in>set lo. \<not> is_upper sps tol e" "\<forall>e\<in>set up. is_upper sps tol e"
    "chain_ok tol 1 (extreme_left sps # lo @ [extreme_right sps])"
    "chain_ok tol (- 1) (extreme_left sps # up @ [extreme_right sps])"
    "subseq lo (kept sps)" "subseq up (kept sps)"
proof -
  have two: "2 \<le> length sps" using three by simp
  have ne: "kept sps \<noteq> []" using pr by (rule pruned_kept_nonempty)
  obtain lo where lo: "fst (lower_build sps tol) = extreme_left sps # lo @ [extreme_right sps]"
    "subseq lo (lower_points sps tol)" "chain_ok tol 1 (fst (lower_build sps tol))"
    by (rule lower_build_shape)
  obtain up where up: "fst (upper_build sps tol) = extreme_left sps # up @ [extreme_right sps]"
    "subseq up (upper_points sps tol)" "chain_ok tol (- 1) (fst (upper_build sps tol))"
    by (rule upper_build_shape)
  have slo: "subseq lo (kept sps)"
    using lo(2) unfolding lower_points_def
    by (meson subseq_filter_left subseq_order.order_trans)
  have sup: "subseq up (kept sps)"
    using up(2) unfolding upper_points_def
    by (meson subseq_filter_left subseq_order.order_trans)
  have r: "reassembled sps tol = extreme_left sps # lo @ extreme_right sps # rev up"
    by (simp add: reassembled_def lo(1) up(1) butlast_append)
  have s1: "sorted_wrt (<) (map sort_position (extreme_left sps # lo @ [extreme_right sps]))"
    using two slo lo(3)[unfolded lo(1)] ne by (rule chain_strict)
  have s2: "sorted_wrt (<) (map sort_position (extreme_left sps # up @ [extreme_right sps]))"
    using two sup up(3)[unfolded up(1)] ne by (rule chain_strict)
  have c1: "\<forall>e\<in>set lo. \<not> is_upper sps tol e"
    using subseq_set_subset[OF lo(2)] by (auto simp: lower_points_def)
  have c2: "\<forall>e\<in>set up. is_upper sps tol e"
    using subseq_set_subset[OF up(2)] by (auto simp: upper_points_def)
  show ?thesis
    using that[OF lo(1) up(1) r s1 s2 c1 c2 lo(3)[unfolded lo(1)] up(3)[unfolded up(1)] slo sup] .
qed

lemma reassembled_distinct_positions:
  assumes "sorted_wrt (<) (map sort_position (l # lo @ [r]))"
    and "sorted_wrt (<) (map sort_position (l # up @ [r]))"
    and "\<forall>e\<in>set lo. \<not> is_upper sps tol e" "\<forall>e\<in>set up. is_upper sps tol e"
  shows "distinct (map sort_position (l # lo @ r # rev up))"
proof -
  have d1: "distinct (map sort_position (l # lo @ [r]))"
    using assms(1) strict_sorted_iff by blast
  have d2: "distinct (map sort_position (l # up @ [r]))"
    using assms(2) strict_sorted_iff by blast
  have "sort_position a \<noteq> sort_position b" if "a \<in> set lo" "b \<in> set up" for a b
    using that assms(3,4) is_upper_location[of a b sps tol]
    by (auto simp: sort_position_eq_iff)
  then have "\<forall>a\<in>set lo. \<forall>b\<in>set up. sort_position a \<noteq> sort_position b" by blast
  then have "sort_position ` set lo \<inter> sort_position ` set up = {}" by blast
  moreover have "distinct (map sort_position (rev up)) = distinct (map sort_position up)"
    by (metis distinct_rev rev_map)
  moreover have "set (rev up) = set up" by simp
  ultimately show ?thesis using d1 d2 by auto
qed

subsection \<open>Running the algorithm again on its own result\<close>

lemma distinct_positions_locations:
  assumes "distinct (map sort_position xs)"
  shows "distinct (map GetLocation xs)"
proof -
  have "map sort_position xs = map (\<lambda>p. (longitude p, latitude p)) (map GetLocation xs)"
    by (simp add: sort_position_def)
  with assms have "distinct (map (\<lambda>p. (longitude p, latitude p)) (map GetLocation xs))"
    by simp
  then show ?thesis
    using distinct_map[of "\<lambda>p. (longitude p, latitude p)" "map GetLocation xs"] by blast
qed

lemma retained_all:
  "sorted_wrt (<) (map sort_position (x # js)) \<Longrightarrow> retained (GetLocation x) js = js"
proof (induction js arbitrary: x)
  case Nil
  then show ?case by simp
next
  case (Cons i js)
  then have "sort_position x \<noteq> sort_position i" by auto
  then have "GetLocation i \<noteq> GetLocation x"
    by (auto simp: sort_position_eq_iff)
  moreover have "sorted_wrt (<) (map sort_position (i # js))" using Cons.prems by simp
  ultimately show ?case using Cons.IH by simp
qed

lemma strict_chain_parts:
  assumes "sorted_wrt (<) (map sort_position (l # zs @ [r]))"
  shows "\<forall>e\<in>set zs. sort_position l < sort_position e"
    and "\<forall>e\<in>set zs. sort_position e < sort_position r"
    and "sort_position l < sort_position r"
    and "sorted_wrt (<) (map sort_position zs)"
  using assms by (simp_all add: sorted_wrt_append)

lemma rerun_sorted:
  assumes s1: "sorted_wrt (<) (map sort_position (l # lo @ [r]))"
    and s2: "sorted_wrt (<) (map sort_position (l # up @ [r]))"
    and d: "distinct (map sort_position (l # lo @ r # rev up))"
  shows "sort_raw_points (l # lo @ r # rev up) = l # sort_key sort_position (lo @ up) @ [r]"
    and "sorted_wrt (<) (map sort_position (l # sort_key sort_position (lo @ up)))"
proof -
  let ?m = "sort_key sort_position (lo @ up)"
  note p1 = strict_chain_parts[OF s1] and p2 = strict_chain_parts[OF s2]
  have sm: "sorted (map sort_position ?m)" by (rule sorted_sort_key)
  have setm: "set ?m = set lo \<union> set up" by simp
  have lb: "\<forall>e\<in>set ?m. sort_position l < sort_position e"
    unfolding setm using p1(1) p2(1) by blast
  have ub: "\<forall>e\<in>set ?m. sort_position e < sort_position r"
    unfolding setm using p1(2) p2(2) by blast
  have a1: "sorted (map sort_position (?m @ [r]))"
    using sm ub by (simp add: sorted_append less_imp_le del: sort_key_simps set_sort set_append)
  have a2: "\<forall>e\<in>set (?m @ [r]). sort_position l \<le> sort_position e"
    using lb p1(3) by (simp add: less_imp_le del: sort_key_simps set_sort)
  have srt: "sorted (map sort_position (l # ?m @ [r]))"
    using a1 a2 by (simp del: sort_key_simps set_sort set_append map_append)
  have ms: "mset (l # lo @ r # rev up) = mset (l # ?m @ [r])" by simp
  have inj: "inj_on sort_position (set (l # lo @ r # rev up))"
    using d distinct_map[of sort_position "l # lo @ r # rev up"] by blast
  show "sort_raw_points (l # lo @ r # rev up) = l # ?m @ [r]"
    unfolding sort_raw_points_def using ms inj srt by (rule sort_key_inj_key_eq)
  have dl: "distinct (l # lo @ r # rev up)"
    using d distinct_map[of sort_position "l # lo @ r # rev up"] by blast
  have dm: "distinct ?m" using dl by simp
  have "set ?m \<subseteq> set (l # lo @ r # rev up)" by auto
  with inj have "inj_on sort_position (set ?m)" by (rule inj_on_subset)
  with dm have "distinct (map sort_position ?m)"
    using distinct_map[of sort_position ?m] by blast
  with sm have "sorted_wrt (<) (map sort_position ?m)"
    using strict_sorted_iff by blast
  with lb show "sorted_wrt (<) (map sort_position (l # ?m))"
    by (simp del: sort_key_simps set_sort)
qed

lemma rerun_partition:
  assumes s1: "sorted_wrt (<) (map sort_position (l # lo @ [r]))"
    and s2: "sorted_wrt (<) (map sort_position (l # up @ [r]))"
    and c1: "\<forall>e\<in>set lo. \<not> P e" and c2: "\<forall>e\<in>set up. P e"
  shows "filter (\<lambda>e. \<not> P e) (sort_key sort_position (lo @ up)) = lo"
    and "filter P (sort_key sort_position (lo @ up)) = up"
proof -
  have l: "sorted (map sort_position lo)"
    using s1 by (auto simp: sorted_wrt_append intro: strict_sorted_imp_sorted)
  have u: "sorted (map sort_position up)"
    using s2 by (auto simp: sorted_wrt_append intro: strict_sorted_imp_sorted)
  have "filter (\<lambda>e. \<not> P e) (lo @ up) = lo" using c1 c2 by simp
  then show "filter (\<lambda>e. \<not> P e) (sort_key sort_position (lo @ up)) = lo"
    using l by (simp add: filter_sort sort_key_id_if_sorted)
  have "filter P (lo @ up) = up" using c1 c2 by simp
  then show "filter P (sort_key sort_position (lo @ up)) = up"
    using u by (simp add: filter_sort sort_key_id_if_sorted)
qed

lemma rerun_not_pruned:
  assumes three: "3 \<le> length sps"
    and pr: "snd (lower_build sps tol) \<or> snd (upper_build sps tol)"
  shows "\<not> snd (lower_build (reassembled sps tol) tol)"
    and "\<not> snd (upper_build (reassembled sps tol) tol)"
proof -
  let ?L = "extreme_left sps" and ?R = "extreme_right sps"
  obtain lo up where h:
    "fst (lower_build sps tol) = ?L # lo @ [?R]"
    "fst (upper_build sps tol) = ?L # up @ [?R]"
    "reassembled sps tol = ?L # lo @ ?R # rev up"
    "sorted_wrt (<) (map sort_position (?L # lo @ [?R]))"
    "sorted_wrt (<) (map sort_position (?L # up @ [?R]))"
    "\<forall>e\<in>set lo. \<not> is_upper sps tol e" "\<forall>e\<in>set up. is_upper sps tol e"
    "chain_ok tol 1 (?L # lo @ [?R])"
    "chain_ok tol (- 1) (?L # up @ [?R])"
    by (rule hull_facts[OF three pr])
  let ?res = "reassembled sps tol"
  let ?m = "sort_key sort_position (lo @ up)"
  have d: "distinct (map sort_position (?L # lo @ ?R # rev up))"
    using h(4,5,6,7) by (rule reassembled_distinct_positions)
  have srt: "sort_raw_points ?res = ?L # ?m @ [?R]"
    unfolding h(3) using h(4,5) d by (rule rerun_sorted(1))
  have L: "extreme_left ?res = ?L" by (simp add: extreme_left_def srt)
  have R: "extreme_right ?res = ?R" by (simp add: extreme_right_def srt)
  have B: "between ?res = ?m" by (simp add: between_def srt)
  have K: "kept ?res = ?m"
    unfolding kept_def L B using rerun_sorted(2)[OF h(4,5) d] by (rule retained_all)
  have U: "is_upper ?res tol = is_upper sps tol"
    by (simp add: fun_eq_iff is_upper_def L R)
  have lp: "lower_points ?res tol = lo"
    unfolding lower_points_def K U using h(4,5,6,7) by (rule rerun_partition(1))
  have up: "upper_points ?res tol = up"
    unfolding upper_points_def K U using h(4,5,6,7) by (rule rerun_partition(2))
  have "lower_build ?res tol = ([?L] @ lo @ [?R], False)"
    unfolding lower_build_def lp L R using h(8) by (intro construction_loop_fixed) simp
  then show "\<not> snd (lower_build ?res tol)" by simp
  have "upper_build ?res tol = ([?L] @ up @ [?R], False)"
    unfolding upper_build_def up L R using h(9) by (intro construction_loop_fixed) simp
  then show "\<not> snd (upper_build ?res tol)" by simp
qed

lemma rerun_PruneInterior:
  assumes three: "3 \<le> length sps"
    and pr: "snd (lower_build sps tol) \<or> snd (upper_build sps tol)"
  shows "\<exists>g. PruneInterior (GrahamScan_init (reassembled sps tol) tol l1 r1) = Inr (False, g) \<and>
             raw_vector g = reassembled sps tol"
proof (cases "length (reassembled sps tol) < 3")
  case True
  then show ?thesis
    by (simp add: PruneInterior_small raw_vector_init)
next
  case False
  then have t: "3 \<le> length (reassembled sps tol)" by simp
  show ?thesis
    using rerun_not_pruned[OF three pr]
    by (simp add: PruneInterior_init[OF t] built_def)
qed

lemma PruneInterior_true_result:
  assumes "PruneInterior (GrahamScan_init sps tol l0 r0) = Inr (True, g')"
  shows "3 \<le> length sps" "snd (lower_build sps tol) \<or> snd (upper_build sps tol)"
    "g' = (built sps tol)\<lparr>raw_vector := reassembled sps tol\<rparr>"
proof -
  show three: "3 \<le> length sps"
  proof (rule ccontr)
    assume "\<not> 3 \<le> length sps"
    then have "length sps < 3" by simp
    with assms show False by (simp add: PruneInterior_small)
  qed
  from assms show "snd (lower_build sps tol) \<or> snd (upper_build sps tol)"
    by (simp add: PruneInterior_init[OF three] split: if_splits)
  from assms show "g' = (built sps tol)\<lparr>raw_vector := reassembled sps tol\<rparr>"
    by (simp add: PruneInterior_init[OF three] split: if_splits)
qed

subsection \<open>Plane geometry of chains in lexicographic order\<close>

lemma signed_area_rotate: "signed_area b c a = signed_area a b c"
  by (simp add: signed_area_def algebra_simps)

lemma signed_area_swap: "signed_area a c b = - signed_area a b c"
  by (simp add: signed_area_def algebra_simps)

lemma signed_area_flat [simp]: "signed_area a b a = 0" "signed_area a b b = 0"
  by (simp_all add: signed_area_def algebra_simps)

lemma lex_less_longitude: "lex_less p q \<Longrightarrow> longitude p \<le> longitude q"
  by (auto simp: lex_less_def)

lemma four_point_longitude:
  assumes pq: "longitude p \<le> longitude q" and qr: "lex_less q r"
    and rs: "longitude r \<le> longitude s"
    and A: "0 < s0 * signed_area p q r" and B: "0 < s0 * signed_area q r s"
  shows "longitude q < longitude r"
proof (rule ccontr)
  assume "\<not> longitude q < longitude r"
  with qr have e: "longitude r = longitude q" "latitude q < latitude r"
    by (auto simp: lex_less_def)
  have a: "signed_area p q r = (longitude q - longitude p) * (latitude r - latitude q)"
    using e(1) by (simp add: signed_area_def algebra_simps)
  have b: "signed_area q r s = - ((latitude r - latitude q) * (longitude s - longitude q))"
    using e(1) by (simp add: signed_area_def algebra_simps)
  have "0 \<le> signed_area p q r"
    unfolding a using pq e(2) by (intro mult_nonneg_nonneg) simp_all
  with A have "0 < s0" by (auto simp: zero_less_mult_iff)
  have "0 \<le> (latitude r - latitude q) * (longitude s - longitude q)"
    using rs e by (intro mult_nonneg_nonneg) simp_all
  then have "signed_area q r s \<le> 0" unfolding b by simp
  with B have "s0 < 0" by (auto simp: zero_less_mult_iff)
  with \<open>0 < s0\<close> show False by simp
qed

lemma four_point:
  assumes pq: "longitude p \<le> longitude q" and qr: "lex_less q r"
    and rs: "longitude r \<le> longitude s"
    and A: "0 < s0 * signed_area p q r" and B: "0 < s0 * signed_area q r s"
  shows "0 < s0 * signed_area p q s" and "0 < s0 * signed_area p r s"
proof -
  have x: "longitude q < longitude r"
    using assms by (rule four_point_longitude)
  have i1: "(longitude r - longitude q) * (s0 * signed_area p q s) =
            (longitude s - longitude q) * (s0 * signed_area p q r) +
            (longitude q - longitude p) * (s0 * signed_area q r s)"
    by (simp add: signed_area_def algebra_simps)
  have "0 < (longitude s - longitude q) * (s0 * signed_area p q r)"
    by (rule mult_pos_pos) (use x rs A in simp_all)
  moreover have "0 \<le> (longitude q - longitude p) * (s0 * signed_area q r s)"
    by (rule mult_nonneg_nonneg) (use pq B in simp_all)
  ultimately have "0 < (longitude s - longitude q) * (s0 * signed_area p q r) +
            (longitude q - longitude p) * (s0 * signed_area q r s)"
    by (rule add_pos_nonneg)
  then have "0 < (longitude r - longitude q) * (s0 * signed_area p q s)"
    by (simp only: i1)
  then show "0 < s0 * signed_area p q s"
    using x by (simp add: zero_less_mult_iff)
  have i2: "(longitude r - longitude q) * (s0 * signed_area p r s) =
            (longitude r - longitude p) * (s0 * signed_area q r s) +
            (longitude s - longitude r) * (s0 * signed_area p q r)"
    by (simp add: signed_area_def algebra_simps)
  have "0 < (longitude r - longitude p) * (s0 * signed_area q r s)"
    by (rule mult_pos_pos) (use x pq B in simp_all)
  moreover have "0 \<le> (longitude s - longitude r) * (s0 * signed_area p q r)"
    by (rule mult_nonneg_nonneg) (use rs A in simp_all)
  ultimately have "0 < (longitude r - longitude p) * (s0 * signed_area q r s) +
            (longitude s - longitude r) * (s0 * signed_area p q r)"
    by (rule add_pos_nonneg)
  then have "0 < (longitude r - longitude q) * (s0 * signed_area p r s)"
    by (simp only: i2)
  then show "0 < s0 * signed_area p r s"
    using x by (simp add: zero_less_mult_iff)
qed

lemma all_triples:
  fixes ps :: "GeoPoint list"
  assumes srt: "sorted_wrt lex_less ps"
    and loc: "\<forall>i. i + 2 < length ps \<longrightarrow>
                0 < s0 * signed_area (ps ! i) (ps ! (i + 1)) (ps ! (i + 2))"
  shows "i < j \<Longrightarrow> j < k \<Longrightarrow> k < length ps \<Longrightarrow> 0 < s0 * signed_area (ps ! i) (ps ! j) (ps ! k)"
proof (induction "k - i" arbitrary: i j k rule: less_induct)
  case less
  note lx = sorted_wrt_nth_less[OF srt]
  show ?case
  proof (cases "k = i + 2")
    case True
    with less.prems have "j = i + 1" by simp
    with True less.prems loc show ?thesis by simp
  next
    case False
    show ?thesis
    proof (cases "j + 1 < k")
      case True
      have a: "0 < s0 * signed_area (ps ! i) (ps ! j) (ps ! (k - 1))"
        using less.prems True by (intro less.hyps) simp_all
      have b: "0 < s0 * signed_area (ps ! j) (ps ! (k - 1)) (ps ! k)"
        using less.prems True by (intro less.hyps) simp_all
      have "lex_less (ps ! i) (ps ! j)" using less.prems by (intro lx) simp_all
      then have pq: "longitude (ps ! i) \<le> longitude (ps ! j)" by (rule lex_less_longitude)
      have qr: "lex_less (ps ! j) (ps ! (k - 1))"
        using less.prems True by (intro lx) simp_all
      have "lex_less (ps ! (k - 1)) (ps ! k)" using less.prems by (intro lx) simp_all
      then have rs: "longitude (ps ! (k - 1)) \<le> longitude (ps ! k)"
        by (rule lex_less_longitude)
      from pq qr rs a b show ?thesis by (rule four_point(1))
    next
      case jk: False
      with less.prems have k: "k = j + 1" by simp
      with False less.prems have ij: "i + 1 < j" by simp
      have a: "0 < s0 * signed_area (ps ! i) (ps ! (i + 1)) (ps ! j)"
        using less.prems ij by (intro less.hyps) simp_all
      have b: "0 < s0 * signed_area (ps ! (i + 1)) (ps ! j) (ps ! k)"
        using less.prems ij by (intro less.hyps) simp_all
      have "lex_less (ps ! i) (ps ! (i + 1))" using less.prems by (intro lx) simp_all
      then have pq: "longitude (ps ! i) \<le> longitude (ps ! (i + 1))"
        by (rule lex_less_longitude)
      have qr: "lex_less (ps ! (i + 1)) (ps ! j)"
        using less.prems ij by (intro lx) simp_all
      have "lex_less (ps ! j) (ps ! k)" using less.prems by (intro lx) simp_all
      then have rs: "longitude (ps ! j) \<le> longitude (ps ! k)" by (rule lex_less_longitude)
      from pq qr rs a b show ?thesis by (rule four_point(2))
    qed
  qed
qed

lemma chain_edge_side:
  fixes ps :: "GeoPoint list"
  assumes srt: "sorted_wrt lex_less ps"
    and loc: "\<forall>i. i + 2 < length ps \<longrightarrow>
                0 < s0 * signed_area (ps ! i) (ps ! (i + 1)) (ps ! (i + 2))"
    and i: "i + 1 < length ps" and j: "j < length ps"
  shows "0 \<le> s0 * signed_area (ps ! i) (ps ! (i + 1)) (ps ! j)"
proof -
  consider "j < i" | "j = i" | "j = i + 1" | "i + 1 < j" by linarith
  then show ?thesis
  proof cases
    case 1
    have "0 < s0 * signed_area (ps ! j) (ps ! i) (ps ! (i + 1))"
      using srt loc 1 _ i by (rule all_triples) simp
    then show ?thesis
      using signed_area_rotate[of "ps ! i" "ps ! (i + 1)" "ps ! j"] by simp
  next
    case 2
    then show ?thesis by simp
  next
    case 3
    then show ?thesis by simp
  next
    case 4
    have "0 < s0 * signed_area (ps ! i) (ps ! (i + 1)) (ps ! j)"
      using srt loc _ 4 j by (rule all_triples) simp
    then show ?thesis by simp
  qed
qed

lemma other_chain_side:
  assumes ly: "longitude l \<le> longitude y" and yr: "longitude y \<le> longitude r"
    and ab: "longitude a \<le> longitude b"
    and gl: "0 \<le> s0 * signed_area a b l" and gr: "0 \<le> s0 * signed_area a b r"
    and above: "0 < s0 * signed_area l r y"
  shows "0 \<le> s0 * signed_area a b y"
proof -
  have x: "longitude l < longitude r"
  proof (rule ccontr)
    assume "\<not> longitude l < longitude r"
    with ly yr have "longitude r = longitude l" "longitude y = longitude l" by simp_all
    then have "signed_area l r y = 0" by (simp add: signed_area_def)
    with above show False by simp
  qed
  have idt: "(longitude r - longitude l) * (s0 * signed_area a b y) =
             (longitude r - longitude y) * (s0 * signed_area a b l) +
             (longitude y - longitude l) * (s0 * signed_area a b r) +
             (longitude b - longitude a) * (s0 * signed_area l r y)"
    by (simp add: signed_area_def algebra_simps)
  have "0 \<le> (longitude r - longitude y) * (s0 * signed_area a b l)"
    by (rule mult_nonneg_nonneg) (use yr gl in simp_all)
  moreover have "0 \<le> (longitude y - longitude l) * (s0 * signed_area a b r)"
    by (rule mult_nonneg_nonneg) (use ly gr in simp_all)
  moreover have "0 \<le> (longitude b - longitude a) * (s0 * signed_area l r y)"
    by (rule mult_nonneg_nonneg) (use ab above in simp_all)
  ultimately have "0 \<le> (longitude r - longitude y) * (s0 * signed_area a b l) +
             (longitude y - longitude l) * (s0 * signed_area a b r) +
             (longitude b - longitude a) * (s0 * signed_area l r y)"
    by (intro add_nonneg_nonneg)
  then have "0 \<le> (longitude r - longitude l) * (s0 * signed_area a b y)"
    by (simp only: idt)
  then show ?thesis using x by (simp add: zero_le_mult_iff)
qed

lemma polygon_side:
  fixes ps qs :: "GeoPoint list"
  assumes sp: "sorted_wrt lex_less ps"
    and cp: "\<forall>i. i + 2 < length ps \<longrightarrow>
               0 < s0 * signed_area (ps ! i) (ps ! (i + 1)) (ps ! (i + 2))"
    and sq: "sorted_wrt lex_less qs"
    and cq: "\<forall>i. i + 2 < length qs \<longrightarrow>
               0 < (- s0) * signed_area (qs ! i) (qs ! (i + 1)) (qs ! (i + 2))"
    and ne: "ps \<noteq> []" "qs \<noteq> []" and ends: "hd ps = hd qs" "last ps = last qs"
    and i: "i + 1 < length ps" and y: "y \<in> set ps \<union> set qs"
  shows "0 \<le> s0 * signed_area (ps ! i) (ps ! (i + 1)) y"
proof -
  have own: "0 \<le> s0 * signed_area (ps ! i) (ps ! (i + 1)) (ps ! j)" if "j < length ps" for j
    using sp cp i that by (rule chain_edge_side)
  have first: "ps ! 0 = qs ! 0" using ne ends(1) by (simp add: hd_conv_nth)
  have final: "ps ! (length ps - 1) = qs ! (length qs - 1)"
    using ne ends(2) by (simp add: last_conv_nth)
  from y show ?thesis
  proof
    assume "y \<in> set ps"
    then obtain j where "j < length ps" "y = ps ! j" by (auto simp: in_set_conv_nth)
    with own show ?thesis by simp
  next
    assume "y \<in> set qs"
    then obtain j where j: "j < length qs" "y = qs ! j" by (auto simp: in_set_conv_nth)
    consider "j = 0" | "j = length qs - 1" | "0 < j" "j < length qs - 1" using j(1) by linarith
    then show ?thesis
    proof cases
      case 1
      with j first have "y = ps ! 0" by simp
      moreover have "0 < length ps" using ne by simp
      ultimately show ?thesis using own by blast
    next
      case 2
      with j final have "y = ps ! (length ps - 1)" by simp
      moreover have "length ps - 1 < length ps" using ne by simp
      ultimately show ?thesis using own by blast
    next
      case 3
      let ?l = "qs ! 0" and ?r = "qs ! (length qs - 1)"
      have e: "length qs - 1 < length qs" using j(1) by simp
      have "0 < (- s0) * signed_area ?l (qs ! j) ?r"
        using sq cq 3(1) 3(2) e by (rule all_triples)
      then have above: "0 < s0 * signed_area ?l ?r y"
        using signed_area_swap[of ?l ?r "qs ! j"] j(2) by simp
      have "lex_less ?l (qs ! j)"
        using sq 3(1) j(1) by (rule sorted_wrt_nth_less)
      then have ly: "longitude ?l \<le> longitude y" unfolding j(2) by (rule lex_less_longitude)
      have "lex_less (qs ! j) ?r"
        using sq 3(2) e by (rule sorted_wrt_nth_less)
      then have yr: "longitude y \<le> longitude ?r" unfolding j(2) by (rule lex_less_longitude)
      have "lex_less (ps ! i) (ps ! (i + 1))"
        using sp _ i by (rule sorted_wrt_nth_less) simp
      then have ab: "longitude (ps ! i) \<le> longitude (ps ! (i + 1))"
        by (rule lex_less_longitude)
      have gl: "0 \<le> s0 * signed_area (ps ! i) (ps ! (i + 1)) ?l"
        using own[of 0] ne first by simp
      have gr: "0 \<le> s0 * signed_area (ps ! i) (ps ! (i + 1)) ?r"
        using own[of "length ps - 1"] ne final by simp
      from ly yr ab gl gr above show ?thesis by (rule other_chain_side)
    qed
  qed
qed

subsection \<open>From the orientation test to signed areas\<close>

lemma Direction_effective:
  "\<exists>t\<ge>0. Direction p0 p1 p2 tol = Sign (signed_area p1 p0 p2) t"
proof -
  let ?a = "longitude (GeoPoint_minus p0 p1) * latitude (GeoPoint_minus p2 p1)"
  let ?b = "longitude (GeoPoint_minus p2 p1) * latitude (GeoPoint_minus p0 p1)"
  let ?t = "if tol < 0 then max \<bar>?a\<bar> \<bar>?b\<bar> / 10 else tol"
  have "?a - ?b = signed_area p1 p0 p2"
    by (simp add: GeoPoint_minus_def signed_area_def algebra_simps)
  then have "Direction p0 p1 p2 tol = Sign (signed_area p1 p0 p2) ?t"
    by (simp only: Direction_def Let_def)
  moreover have "0 \<le> max \<bar>?a\<bar> \<bar>?b\<bar> / 10"
    by (rule divide_nonneg_nonneg) (simp_all add: le_max_iff_disj)
  then have "0 \<le> ?t" by (cases "tol < 0") simp_all
  ultimately show ?thesis by blast
qed

lemma Direction_signs:
  "0 < Direction p0 p1 p2 tol \<Longrightarrow> 0 < signed_area p1 p0 p2"
  "Direction p0 p1 p2 tol < 0 \<Longrightarrow> signed_area p1 p0 p2 < 0"
  "0 \<le> signed_area p1 p0 p2 \<Longrightarrow> 0 \<le> Direction p0 p1 p2 tol"
  "signed_area p1 p0 p2 \<le> 0 \<Longrightarrow> Direction p0 p1 p2 tol \<le> 0"
proof -
  obtain t where t: "0 \<le> t" "Direction p0 p1 p2 tol = Sign (signed_area p1 p0 p2) t"
    using Direction_effective by blast
  show "0 < Direction p0 p1 p2 tol \<Longrightarrow> 0 < signed_area p1 p0 p2"
    using t by (auto simp: Sign_def split: if_splits)
  show "Direction p0 p1 p2 tol < 0 \<Longrightarrow> signed_area p1 p0 p2 < 0"
    using t by (auto simp: Sign_def split: if_splits)
  show "0 \<le> signed_area p1 p0 p2 \<Longrightarrow> 0 \<le> Direction p0 p1 p2 tol"
    using t by (auto simp: Sign_def split: if_splits)
  show "signed_area p1 p0 p2 \<le> 0 \<Longrightarrow> Direction p0 p1 p2 tol \<le> 0"
    using t by (auto simp: Sign_def split: if_splits)
qed

lemma turn_ok_lower:
  assumes "turn_ok tol 1 a b c"
  shows "0 < 1 * signed_area (GetLocation a) (GetLocation b) (GetLocation c)"
proof -
  from assms have "0 < Direction (GetLocation a) (GetLocation c) (GetLocation b) tol"
    by (simp add: turn_ok_def)
  then have "0 < signed_area (GetLocation c) (GetLocation a) (GetLocation b)"
    by (rule Direction_signs(1))
  then show ?thesis by (simp add: signed_area_rotate)
qed

lemma turn_ok_upper:
  assumes "turn_ok tol (- 1) a b c"
  shows "0 < (- 1) * signed_area (GetLocation a) (GetLocation b) (GetLocation c)"
proof -
  from assms have "Direction (GetLocation a) (GetLocation c) (GetLocation b) tol < 0"
    by (simp add: turn_ok_def)
  then have "signed_area (GetLocation c) (GetLocation a) (GetLocation b) < 0"
    by (rule Direction_signs(2))
  then show ?thesis by (simp add: signed_area_rotate)
qed

lemma chain_ok_lower:
  assumes "chain_ok tol 1 xs"
  shows "\<forall>i. i + 2 < length (map GetLocation xs) \<longrightarrow>
           0 < 1 * signed_area (map GetLocation xs ! i) (map GetLocation xs ! (i + 1))
                 (map GetLocation xs ! (i + 2))"
proof (intro allI impI)
  fix i assume "i + 2 < length (map GetLocation xs)"
  then have i: "i + 2 < length xs" by simp
  with assms have "turn_ok tol 1 (xs ! i) (xs ! (i + 1)) (xs ! (i + 2))"
    unfolding chain_ok_def by blast
  then have "0 < 1 * signed_area (GetLocation (xs ! i)) (GetLocation (xs ! (i + 1)))
                 (GetLocation (xs ! (i + 2)))"
    by (rule turn_ok_lower)
  with i show "0 < 1 * signed_area (map GetLocation xs ! i) (map GetLocation xs ! (i + 1))
                 (map GetLocation xs ! (i + 2))"
    by simp
qed

lemma chain_ok_upper:
  assumes "chain_ok tol (- 1) xs"
  shows "\<forall>i. i + 2 < length (map GetLocation xs) \<longrightarrow>
           0 < (- 1) * signed_area (map GetLocation xs ! i) (map GetLocation xs ! (i + 1))
                 (map GetLocation xs ! (i + 2))"
proof (intro allI impI)
  fix i assume "i + 2 < length (map GetLocation xs)"
  then have i: "i + 2 < length xs" by simp
  with assms have "turn_ok tol (- 1) (xs ! i) (xs ! (i + 1)) (xs ! (i + 2))"
    unfolding chain_ok_def by blast
  then have "0 < (- 1) * signed_area (GetLocation (xs ! i)) (GetLocation (xs ! (i + 1)))
                 (GetLocation (xs ! (i + 2)))"
    by (rule turn_ok_upper)
  with i show "0 < (- 1) * signed_area (map GetLocation xs ! i) (map GetLocation xs ! (i + 1))
                 (map GetLocation xs ! (i + 2))"
    by simp
qed

lemma sort_position_less:
  "sort_position a < sort_position b \<longleftrightarrow> lex_less (GetLocation a) (GetLocation b)"
  by (auto simp: sort_position_def lex_less_def less_prod_def)

lemma sorted_locations:
  "sorted_wrt (<) (map sort_position xs) \<Longrightarrow> sorted_wrt lex_less (map GetLocation xs)"
  by (simp add: sorted_wrt_map sort_position_less)

subsection \<open>The edges of the reassembled sequence, taken cyclically\<close>

lemma result_edge_cases:
  fixes lo up :: "'a list"
  assumes i: "i < length (l # lo @ r # rev up)"
  shows "(\<exists>j. j + 1 < length (l # lo @ [r]) \<and>
              (l # lo @ r # rev up) ! i = (l # lo @ [r]) ! j \<and>
              (l # lo @ r # rev up) ! ((i + 1) mod length (l # lo @ r # rev up))
                = (l # lo @ [r]) ! (j + 1)) \<or>
         (\<exists>j. j + 1 < length (l # up @ [r]) \<and>
              (l # lo @ r # rev up) ! i = (l # up @ [r]) ! (j + 1) \<and>
              (l # lo @ r # rev up) ! ((i + 1) mod length (l # lo @ r # rev up))
                = (l # up @ [r]) ! j)"
proof -
  let ?res = "l # lo @ r # rev up"
  let ?PL = "l # lo @ [r]" and ?PU = "l # up @ [r]"
  let ?m = "length lo" and ?k = "length up"
  have n: "length ?res = ?m + ?k + 2" by simp
  have res_app: "?res = (l # lo) @ (r # rev up)" by simp
  have PL_app: "?PL = (l # lo) @ [r]" by simp
  have revPU: "rev ?PU = (r # rev up) @ [l]" by simp
  have low: "?res ! a = ?PL ! a" if "a \<le> ?m + 1" for a
  proof (cases "a \<le> ?m")
    case True
    then have "a < length (l # lo)" by simp
    then show ?thesis unfolding res_app PL_app by (simp only: nth_append if_True)
  next
    case False
    with that have a: "a = length (l # lo)" by simp
    show ?thesis unfolding res_app PL_app a by (simp only: nth_append_length)
  qed
  have upp: "?res ! (?m + 1 + b) = ?PU ! (?k + 1 - b)" if "b \<le> ?k" for b
  proof -
    have "?res ! (length (l # lo) + b) = (r # rev up) ! b"
      unfolding res_app by (rule nth_append_length_plus)
    moreover have "b < length (r # rev up)" using that by simp
    then have "(r # rev up) ! b = rev ?PU ! b"
      unfolding revPU by (simp only: nth_append if_True)
    moreover have "rev ?PU ! b = ?PU ! (length ?PU - Suc b)"
      using that by (intro rev_nth) simp
    moreover have "length ?PU - Suc b = ?k + 1 - b" by simp
    moreover have "length (l # lo) + b = ?m + 1 + b" by simp
    ultimately show ?thesis by (simp only:)
  qed
  show ?thesis
  proof (cases "i \<le> ?m")
    case True
    then have "i + 1 < length ?res" by simp
    then have md: "(i + 1) mod length ?res = i + 1" by (rule mod_less)
    have "i + 1 < length ?PL" using True by simp
    moreover have "?res ! i = ?PL ! i" using True by (intro low) simp
    moreover have "?res ! (i + 1) = ?PL ! (i + 1)" using True by (intro low) simp
    ultimately show ?thesis unfolding md by blast
  next
    case False
    define b where "b = i - (?m + 1)"
    have ib: "i = ?m + 1 + b" and bk: "b \<le> ?k"
      using False i by (simp_all add: b_def)
    have cur: "?res ! i = ?PU ! (?k + 1 - b)" unfolding ib using bk by (rule upp)
    show ?thesis
    proof (cases "b < ?k")
      case True
      then have "i + 1 < length ?res" using ib by simp
      then have md: "(i + 1) mod length ?res = i + 1" by (rule mod_less)
      have "?res ! (?m + 1 + (b + 1)) = ?PU ! (?k + 1 - (b + 1))"
        using True by (intro upp) simp
      moreover have "?m + 1 + (b + 1) = i + 1" using ib by simp
      moreover have "?k + 1 - (b + 1) = ?k - b" by simp
      ultimately have nxt: "?res ! (i + 1) = ?PU ! (?k - b)" by (simp only:)
      have "(?k - b) + 1 = ?k + 1 - b" using True by simp
      moreover have "(?k - b) + 1 < length ?PU" by simp
      ultimately show ?thesis
        unfolding md using cur nxt by (intro disjI2 exI[of _ "?k - b"]) (simp only:)
    next
      case False
      with bk have b: "b = ?k" by simp
      then have "i + 1 = length ?res" using ib by simp
      then have md: "(i + 1) mod length ?res = 0" by simp
      have z: "?res ! 0 = ?PU ! 0" by simp
      have c: "?res ! i = ?PU ! (0 + 1)" using cur b by simp
      have "0 + 1 < length ?PU" by simp
      then show ?thesis
        unfolding md using c z by (intro disjI2 exI[of _ 0]) (simp only:)
    qed
  qed
qed

lemma signed_area_flip: "signed_area b a c = - signed_area a b c"
  by (simp add: signed_area_def algebra_simps)

lemma signed_area_rotate2: "signed_area c a b = signed_area a b c"
  by (simp add: signed_area_def algebra_simps)

lemma result_sides:
  assumes three: "3 \<le> length sps"
    and pr: "snd (lower_build sps tol) \<or> snd (upper_build sps tol)"
    and i: "i < length (reassembled sps tol)"
    and y: "y \<in> set (reassembled sps tol)"
  shows "0 \<le> signed_area (GetLocation (reassembled sps tol ! i))
               (GetLocation (reassembled sps tol ! ((i + 1) mod length (reassembled sps tol))))
               (GetLocation y)"
proof -
  let ?L = "extreme_left sps" and ?R = "extreme_right sps"
  obtain lo up where h:
    "fst (lower_build sps tol) = ?L # lo @ [?R]"
    "fst (upper_build sps tol) = ?L # up @ [?R]"
    "reassembled sps tol = ?L # lo @ ?R # rev up"
    "sorted_wrt (<) (map sort_position (?L # lo @ [?R]))"
    "sorted_wrt (<) (map sort_position (?L # up @ [?R]))"
    "\<forall>e\<in>set lo. \<not> is_upper sps tol e" "\<forall>e\<in>set up. is_upper sps tol e"
    "chain_ok tol 1 (?L # lo @ [?R])"
    "chain_ok tol (- 1) (?L # up @ [?R])"
    by (rule hull_facts[OF three pr])
  let ?PL = "?L # lo @ [?R]" and ?PU = "?L # up @ [?R]"
  let ?pl = "map GetLocation ?PL" and ?pu = "map GetLocation ?PU"
  have sl: "sorted_wrt lex_less ?pl" using h(4) by (rule sorted_locations)
  have su: "sorted_wrt lex_less ?pu" using h(5) by (rule sorted_locations)
  note cl = chain_ok_lower[OF h(8)] and cu = chain_ok_upper[OF h(9)]
  have cl': "\<forall>i. i + 2 < length ?pl \<longrightarrow>
               0 < (- (- 1)) * signed_area (?pl ! i) (?pl ! (i + 1)) (?pl ! (i + 2))"
    using cl by simp
  have ne: "?pl \<noteq> []" "?pu \<noteq> []" by simp_all
  have e1: "hd ?pl = hd ?pu" "hd ?pu = hd ?pl" by simp_all
  have e2: "last ?pl = last ?pu" "last ?pu = last ?pl" by simp_all
  have yy: "GetLocation y \<in> set ?pl \<union> set ?pu" "GetLocation y \<in> set ?pu \<union> set ?pl"
    using y unfolding h(3) by auto
  from i have i': "i < length (?L # lo @ ?R # rev up)" unfolding h(3) .
  from result_edge_cases[OF i'] show ?thesis
  proof
    assume "\<exists>j. j + 1 < length ?PL \<and> (?L # lo @ ?R # rev up) ! i = ?PL ! j \<and>
              (?L # lo @ ?R # rev up) ! ((i + 1) mod length (?L # lo @ ?R # rev up))
                = ?PL ! (j + 1)"
    then obtain j where j: "j + 1 < length ?PL" "(?L # lo @ ?R # rev up) ! i = ?PL ! j"
      "(?L # lo @ ?R # rev up) ! ((i + 1) mod length (?L # lo @ ?R # rev up)) = ?PL ! (j + 1)"
      by blast
    have jl: "j + 1 < length ?pl" using j(1) by simp
    have "0 \<le> 1 * signed_area (?pl ! j) (?pl ! (j + 1)) (GetLocation y)"
      using sl cl su cu ne e1(1) e2(1) jl yy(1) by (rule polygon_side)
    moreover have "?pl ! j = GetLocation (?PL ! j)"
      using j(1) by (intro nth_map) simp
    moreover have "?pl ! (j + 1) = GetLocation (?PL ! (j + 1))"
      using j(1) by (intro nth_map)
    ultimately have "0 \<le> signed_area (GetLocation (?PL ! j)) (GetLocation (?PL ! (j + 1)))
                          (GetLocation y)"
      by (simp only: mult_1)
    then show ?thesis unfolding h(3) j(2) j(3) .
  next
    assume "\<exists>j. j + 1 < length ?PU \<and> (?L # lo @ ?R # rev up) ! i = ?PU ! (j + 1) \<and>
              (?L # lo @ ?R # rev up) ! ((i + 1) mod length (?L # lo @ ?R # rev up)) = ?PU ! j"
    then obtain j where j: "j + 1 < length ?PU" "(?L # lo @ ?R # rev up) ! i = ?PU ! (j + 1)"
      "(?L # lo @ ?R # rev up) ! ((i + 1) mod length (?L # lo @ ?R # rev up)) = ?PU ! j"
      by blast
    have jl: "j + 1 < length ?pu" using j(1) by simp
    have "0 \<le> (- 1) * signed_area (?pu ! j) (?pu ! (j + 1)) (GetLocation y)"
      using su cu sl cl' ne(2) ne(1) e1(2) e2(2) jl yy(2) by (rule polygon_side)
    moreover have "?pu ! j = GetLocation (?PU ! j)"
      using j(1) by (intro nth_map) simp
    moreover have "?pu ! (j + 1) = GetLocation (?PU ! (j + 1))"
      using j(1) by (intro nth_map)
    ultimately have "0 \<le> (- 1) * signed_area (GetLocation (?PU ! j))
                          (GetLocation (?PU ! (j + 1))) (GetLocation y)"
      by (simp only:)
    then have "0 \<le> signed_area (GetLocation (?PU ! (j + 1))) (GetLocation (?PU ! j))
                          (GetLocation y)"
      using signed_area_flip[of "GetLocation (?PU ! (j + 1))" "GetLocation (?PU ! j)" "GetLocation y"]
      by simp
    then show ?thesis unfolding h(3) j(2) j(3) .
  qed
qed

lemma result_locations:
  assumes three: "3 \<le> length sps"
    and pr: "snd (lower_build sps tol) \<or> snd (upper_build sps tol)"
  shows "distinct (map GetLocation (reassembled sps tol))" "2 \<le> length (reassembled sps tol)"
proof -
  let ?L = "extreme_left sps" and ?R = "extreme_right sps"
  obtain lo up where h:
    "fst (lower_build sps tol) = ?L # lo @ [?R]"
    "fst (upper_build sps tol) = ?L # up @ [?R]"
    "reassembled sps tol = ?L # lo @ ?R # rev up"
    "sorted_wrt (<) (map sort_position (?L # lo @ [?R]))"
    "sorted_wrt (<) (map sort_position (?L # up @ [?R]))"
    "\<forall>e\<in>set lo. \<not> is_upper sps tol e" "\<forall>e\<in>set up. is_upper sps tol e"
    by (rule hull_facts[OF three pr])
  have "distinct (map sort_position (?L # lo @ ?R # rev up))"
    using h(4,5,6,7) by (rule reassembled_distinct_positions)
  then show "distinct (map GetLocation (reassembled sps tol))"
    unfolding h(3) by (rule distinct_positions_locations)
  show "2 \<le> length (reassembled sps tol)" unfolding h(3) by simp
qed

lemma supported_not_inside:
  assumes ab: "a \<noteq> b" and side: "\<forall>q\<in>S. 0 \<le> signed_area a b q"
  shows "\<not> strictly_inside_hull a S"
proof
  assume s: "strictly_inside_hull a S"
  let ?dlon = "latitude b - latitude a" and ?dlat = "- (longitude b - longitude a)"
  have "?dlon \<noteq> 0 \<or> ?dlat \<noteq> 0"
    using ab GeoPoint_differs[of a b] by auto
  with s obtain q where q: "q \<in> S"
    "0 < ?dlon * (longitude q - longitude a) + ?dlat * (latitude q - latitude a)"
    unfolding strictly_inside_hull_def by blast
  have "?dlon * (longitude q - longitude a) + ?dlat * (latitude q - latitude a)
          = - signed_area a b q"
    by (simp add: signed_area_def algebra_simps)
  with q(2) have "signed_area a b q < 0" by simp
  with side q(1) show False by fastforce
qed

subsection \<open>Convexity of the result in exact arithmetic\<close>

text \<open>
  With \<open>Direction\<close> over the reals, every three cyclically consecutive elements of a
  pruned sequence turn the same way and no element is strictly inside the hull.
\<close>

lemma PruneInterior_convex_exact:
  assumes "PruneInterior (GrahamScan_init sps tol l0 r0) = Inr (True, g')"
  shows "(\<forall>i<length (raw_vector g').
            Direction (GetLocation (raw_vector g' ! i))
              (GetLocation (raw_vector g' ! ((i + 1) mod length (raw_vector g'))))
              (GetLocation (raw_vector g' ! ((i + 2) mod length (raw_vector g')))) tol \<le> 0 \<and>
            0 \<le> Direction (GetLocation (raw_vector g' ! i))
              (GetLocation (raw_vector g' ! ((i + 2) mod length (raw_vector g'))))
              (GetLocation (raw_vector g' ! ((i + 1) mod length (raw_vector g')))) tol) \<and>
         (\<forall>p\<in>set (raw_vector g').
            \<not> strictly_inside_hull (GetLocation p) (GetLocation ` set (raw_vector g')))"
proof -
  note r = PruneInterior_true_result[OF assms]
  let ?res = "reassembled sps tol"
  let ?n = "length ?res"
  have rv: "raw_vector g' = ?res" by (simp add: r(3))
  note side = result_sides[OF r(1) r(2)]
  note locs = result_locations[OF r(1) r(2)]
  have turn: "Direction (GetLocation (?res ! i)) (GetLocation (?res ! ((i + 1) mod ?n)))
                (GetLocation (?res ! ((i + 2) mod ?n))) tol \<le> 0 \<and>
              0 \<le> Direction (GetLocation (?res ! i)) (GetLocation (?res ! ((i + 2) mod ?n)))
                (GetLocation (?res ! ((i + 1) mod ?n))) tol" if i: "i < ?n" for i
  proof -
    let ?a = "GetLocation (?res ! i)" and ?b = "GetLocation (?res ! ((i + 1) mod ?n))"
      and ?c = "GetLocation (?res ! ((i + 2) mod ?n))"
    have "0 < ?n" using i by auto
    then have "(i + 2) mod ?n < ?n" by (rule mod_less_divisor)
    then have "?res ! ((i + 2) mod ?n) \<in> set ?res" by (rule nth_mem)
    with i have a: "0 \<le> signed_area ?a ?b ?c" by (rule side)
    then have "signed_area ?b ?a ?c \<le> 0" using signed_area_flip[of ?b ?a ?c] by simp
    then have d1: "Direction ?a ?b ?c tol \<le> 0" by (rule Direction_signs(4))
    from a have "0 \<le> signed_area ?c ?a ?b" using signed_area_rotate2[of ?c ?a ?b] by simp
    then have d2: "0 \<le> Direction ?a ?c ?b tol" by (rule Direction_signs(3))
    from d1 d2 show ?thesis by blast
  qed
  have hull: "\<not> strictly_inside_hull (GetLocation p) (GetLocation ` set ?res)"
    if p: "p \<in> set ?res" for p
  proof -
    from p obtain i where i: "i < ?n" "p = ?res ! i" by (auto simp: in_set_conv_nth)
    let ?j = "(i + 1) mod ?n"
    have "0 < ?n" using i(1) by auto
    then have j: "?j < ?n" by (rule mod_less_divisor)
    have "?j \<noteq> i"
    proof (cases "i + 1 < ?n")
      case True
      then show ?thesis by simp
    next
      case False
      with i(1) have "i + 1 = ?n" by simp
      then have "?j = 0" "i \<noteq> 0" using locs(2) by simp_all
      then show ?thesis by simp
    qed
    then have "map GetLocation ?res ! i \<noteq> map GetLocation ?res ! ?j"
      using locs(1) i(1) j by (simp add: nth_eq_iff_index_eq del: nth_map)
    then have ne: "GetLocation (?res ! i) \<noteq> GetLocation (?res ! ?j)"
      using i(1) j by simp
    have "\<forall>q\<in>GetLocation ` set ?res.
            0 \<le> signed_area (GetLocation (?res ! i)) (GetLocation (?res ! ?j)) q"
      using side[OF i(1)] by blast
    with ne show ?thesis unfolding i(2) by (rule supported_not_inside)
  qed
  from turn hull show ?thesis unfolding rv by blast
qed

subsection \<open>Rounding to double precision\<close>

lemma round_half_even_near:
  assumes "\<bar>y - of_int m\<bar> < 1 / 2"
  shows "round_half_even y = m"
proof -
  from assms have c: "y - of_int m < 1 / 2" "- (y - of_int m) < 1 / 2"
    unfolding abs_less_iff by blast+
  from c(2) have "- (1 / 2) < y - of_int m" by linarith
  with c(1) have b: "- (1 / 2) < y - of_int m" "y - of_int m < 1 / 2" by blast+
  show ?thesis
  proof (cases "of_int m \<le> y")
    case True
    moreover have "y < of_int m + 1" using b by linarith
    ultimately have "\<lfloor>y\<rfloor> = m" by (rule floor_unique)
    with b(2) show ?thesis by (simp add: round_half_even_def Let_def)
  next
    case False
    have "of_int (m - 1) \<le> y" using b(1) by simp
    moreover have "y < of_int (m - 1) + 1" using False by simp
    ultimately have f: "\<lfloor>y\<rfloor> = m - 1" by (rule floor_unique)
    have g: "1 / 2 < y - of_int (m - 1)" using b(1) by simp
    then have "\<not> y - of_int (m - 1) < 1 / 2" by linarith
    with g show ?thesis
      unfolding round_half_even_def Let_def f by simp
  qed
qed

lemma round_half_even_tie:
  assumes "y = of_int f + 1 / 2"
  shows "round_half_even y = (if even f then f else f + 1)"
proof -
  have "of_int f \<le> y" "y < of_int f + 1" using assms by simp_all
  then have "\<lfloor>y\<rfloor> = f" by (rule floor_unique)
  moreover have "y - of_int f = 1 / 2" using assms by simp
  ultimately show ?thesis by (simp add: round_half_even_def Let_def)
qed

lemma round_half_even_of_int: "round_half_even (of_int j) = j"
  by (rule round_half_even_near) simp

lemma pow2_pos: "0 < pow2 e"
  by (simp add: pow2_def)

lemma pow2_diff: "pow2 (int k - int c) = 2 ^ k / 2 ^ c"
proof (cases "c \<le> k")
  case True
  then have "(2::real) ^ (k - c) = 2 ^ k / 2 ^ c" by (simp add: power_diff)
  moreover have "nat (int k - int c) = k - c" by simp
  ultimately show ?thesis using True by (simp add: pow2_def)
next
  case False
  then have "(2::real) ^ (c - k) = 2 ^ c / 2 ^ k" by (simp add: power_diff)
  moreover have "nat (- (int k - int c)) = c - k" by simp
  ultimately show ?thesis using False by (simp add: pow2_def)
qed

lemma pow2_shift: "pow2 (int k - 1074) = 2 ^ k / 2 ^ 1074"
  using pow2_diff[of k 1074] by (simp only: of_nat_numeral)

lemma round_double_exponent:
  fixes x :: real
  assumes lo: "k = 0 \<or> 2 ^ (52 + k) \<le> \<bar>x\<bar> * 2 ^ 1074"
    and hi: "\<bar>x\<bar> * 2 ^ 1074 < 2 ^ (53 + k)"
  shows "max (bitlen \<lfloor>\<bar>x\<bar> * 2 ^ 1074\<rfloor> - 1127) (- 1074) = int k - 1074"
proof -
  let ?n = "\<lfloor>\<bar>x\<bar> * 2 ^ 1074\<rfloor>"
  have "of_int ?n \<le> \<bar>x\<bar> * 2 ^ 1074" by simp
  also note hi
  finally have "of_int ?n < (2::real) ^ (53 + k)" .
  then have "?n < 2 ^ (53 + k)" by (simp only: of_int_less_numeral_power_cancel_iff)
  then have up: "bitlen ?n \<le> int (53 + k)"
    by (subst bitlen_le_iff_power) (simp only: nat_int, simp)
  show ?thesis
  proof (cases "k = 0")
    case True
    with up show ?thesis by simp
  next
    case False
    with lo have "(2::real) ^ (52 + k) \<le> \<bar>x\<bar> * 2 ^ 1074" by simp
    then have "(of_int (2 ^ (52 + k)) :: real) \<le> \<bar>x\<bar> * 2 ^ 1074" by simp
    then have "2 ^ (52 + k) \<le> ?n" by (simp only: le_floor_iff)
    moreover have "nat (int (53 + k)) - 1 = 52 + k" by simp
    ultimately have "int (53 + k) \<le> bitlen ?n"
      by (subst bitlen_ge_iff_power) (simp only:, simp)
    with up have "bitlen ?n = int (53 + k)" by simp
    then show ?thesis by simp
  qed
qed

lemma round_double_near:
  fixes x :: real
  assumes lo: "k = 0 \<or> 2 ^ (52 + k) \<le> \<bar>x\<bar> * 2 ^ 1074"
    and hi: "\<bar>x\<bar> * 2 ^ 1074 < 2 ^ (53 + k)"
    and near: "\<bar>x * 2 ^ 1074 / 2 ^ k - of_int m\<bar> < 1 / 2"
  shows "round_double x = of_int m * 2 ^ k / 2 ^ 1074"
proof -
  have e: "max (bitlen \<lfloor>\<bar>x\<bar> * 2 ^ 1074\<rfloor> - 1127) (- 1074) = int k - 1074"
    using lo hi by (rule round_double_exponent)
  have "x / pow2 (int k - 1074) = x * 2 ^ 1074 / 2 ^ k"
    by (simp add: pow2_shift)
  with near have "round_half_even (x / pow2 (int k - 1074)) = m"
    by (intro round_half_even_near) simp
  then show ?thesis
    unfolding round_double_def Let_def e by (simp add: pow2_shift)
qed

lemma round_double_tie:
  fixes x :: real
  assumes lo: "k = 0 \<or> 2 ^ (52 + k) \<le> \<bar>x\<bar> * 2 ^ 1074"
    and hi: "\<bar>x\<bar> * 2 ^ 1074 < 2 ^ (53 + k)"
    and tie: "x * 2 ^ 1074 / 2 ^ k = of_int f + 1 / 2"
  shows "round_double x = of_int (if even f then f else f + 1) * 2 ^ k / 2 ^ 1074"
proof -
  have e: "max (bitlen \<lfloor>\<bar>x\<bar> * 2 ^ 1074\<rfloor> - 1127) (- 1074) = int k - 1074"
    using lo hi by (rule round_double_exponent)
  have "x / pow2 (int k - 1074) = x * 2 ^ 1074 / 2 ^ k"
    by (simp add: pow2_shift)
  with tie have "round_half_even (x / pow2 (int k - 1074)) = (if even f then f else f + 1)"
    by (intro round_half_even_tie) simp
  then show ?thesis
    unfolding round_double_def Let_def e by (simp add: pow2_shift)
qed

lemma round_double_of_int:
  assumes "\<bar>j\<bar> < 2 ^ 53"
  shows "round_double (of_int j) = of_int j"
proof -
  let ?x = "of_int j :: real"
  let ?n = "\<lfloor>\<bar>?x\<bar> * 2 ^ 1074\<rfloor>"
  define e where "e = max (bitlen ?n - 1127) (- 1074)"
  have "\<bar>?x\<bar> * 2 ^ 1074 = of_int (\<bar>j\<bar> * 2 ^ 1074)" by simp
  then have n: "?n = \<bar>j\<bar> * 2 ^ 1074" by (simp only: floor_of_int)
  have "\<bar>j\<bar> * 2 ^ 1074 < 2 ^ 53 * 2 ^ 1074"
    using assms by (intro mult_strict_right_mono) simp_all
  then have "?n < 2 ^ nat 1127" unfolding n by (simp flip: power_add)
  then have "bitlen ?n \<le> 1127" by (simp add: bitlen_le_iff_power)
  then have e0: "e \<le> 0" by (simp add: e_def)
  then have p: "pow2 e = 1 / 2 ^ nat (- e)"
    by (cases "e = 0") (simp_all add: pow2_def)
  have "?x / pow2 e = of_int (j * 2 ^ nat (- e))" by (simp add: p)
  then have "round_half_even (?x / pow2 e) = j * 2 ^ nat (- e)"
    by (simp only: round_half_even_of_int)
  then have "of_int (round_half_even (?x / pow2 e)) * pow2 e = ?x"
    by (simp add: p)
  then show ?thesis unfolding round_double_def Let_def e_def .
qed

subsection \<open>The run with another orientation test\<close>

lemma agrees_subset: "agrees dir tol S \<Longrightarrow> T \<subseteq> S \<Longrightarrow> agrees dir tol T"
  unfolding agrees_def by blast

lemma agreesD:
  "agrees dir tol S \<Longrightarrow> p0 \<in> S \<Longrightarrow> p1 \<in> S \<Longrightarrow> p2 \<in> S \<Longrightarrow>
   dir p0 p1 p2 tol = Direction p0 p1 p2 tol"
  unfolding agrees_def by blast

lemma set_erase_at: "set (erase_at xs k) \<subseteq> set xs"
proof -
  have "set (take k xs) \<subseteq> set xs" by (rule set_take_subset)
  moreover have "set (drop (Suc k) xs) \<subseteq> set xs" by (rule set_drop_subset)
  ultimately show ?thesis by (simp add: erase_at_def)
qed

lemma restore_convexity_with_eq:
  "agrees dir tol (GetLocation ` set outp) \<Longrightarrow>
   restore_convexity_with dir tol factor outp pruned
     = restore_convexity tol factor outp pruned"
proof (induction "length outp" arbitrary: outp pruned rule: less_induct)
  case less
  let ?a = "GetLocation (outp ! (length outp - 1 - 2))"
  let ?b = "GetLocation (outp ! (length outp - 1))"
  let ?c = "GetLocation (outp ! (length outp - 1 - 1))"
  let ?rest = "erase_at outp (length outp - 1 - 1)"
  have e1: "restore_convexity_with dir tol factor outp pruned =
              (if 3 \<le> length outp
               then (if 0 < factor * dir ?a ?b ?c tol then (outp, pruned)
                     else restore_convexity_with dir tol factor ?rest True)
               else (outp, pruned))"
    by (subst restore_convexity_with.simps) (simp only: Let_def)
  have e2: "restore_convexity tol factor outp pruned =
              (if 3 \<le> length outp
               then (if 0 < factor * Direction ?a ?b ?c tol then (outp, pruned)
                     else restore_convexity tol factor ?rest True)
               else (outp, pruned))"
    by (subst restore_convexity.simps) (simp only: Let_def)
  show ?case
  proof (cases "3 \<le> length outp")
    case False
    then show ?thesis by (simp only: e1 e2 if_False)
  next
    case True
    then have i: "length outp - 1 - 2 < length outp" "length outp - 1 < length outp"
      "length outp - 1 - 1 < length outp" by simp_all
    have mem: "?a \<in> GetLocation ` set outp" "?b \<in> GetLocation ` set outp"
      "?c \<in> GetLocation ` set outp"
      by (rule imageI, rule nth_mem, rule i)+
    have d: "dir ?a ?b ?c tol = Direction ?a ?b ?c tol"
      using less.prems mem by (rule agreesD)
    have "length ?rest < length outp"
      using True by (simp add: erase_at_def)
    moreover have "agrees dir tol (GetLocation ` set ?rest)"
      using less.prems by (rule agrees_subset) (rule image_mono, rule set_erase_at)
    ultimately have r: "restore_convexity_with dir tol factor ?rest True
                   = restore_convexity tol factor ?rest True"
      by (rule less.hyps)
    show ?thesis by (simp only: e1 e2 d r)
  qed
qed

lemma restore_convexity_set:
  assumes "restore_convexity tol factor (xs @ [z]) pruned = (out, pruned')"
  shows "set out \<subseteq> set (xs @ [z])"
proof -
  from restore_convexity_shape[OF assms] obtain k where "out = take k xs @ [z]" by blast
  moreover have "set (take k xs) \<subseteq> set xs" by (rule set_take_subset)
  ultimately show ?thesis by auto
qed

lemma construction_loop_with_eq:
  "agrees dir tol (GetLocation ` (set input \<union> set outp)) \<Longrightarrow>
   construction_loop_with dir tol factor input outp pruned
     = construction_loop tol factor input outp pruned"
proof (induction input arbitrary: outp pruned)
  case Nil
  then show ?case by simp
next
  case (Cons i "is")
  obtain o1 p1 where r: "restore_convexity tol factor (outp @ [i]) pruned = (o1, p1)"
    by (cases "restore_convexity tol factor (outp @ [i]) pruned")
  have "agrees dir tol (GetLocation ` set (outp @ [i]))"
    using Cons.prems by (rule agrees_subset) auto
  then have w: "restore_convexity_with dir tol factor (outp @ [i]) pruned = (o1, p1)"
    using r by (simp add: restore_convexity_with_eq)
  have "set o1 \<subseteq> set (outp @ [i])" using r by (rule restore_convexity_set)
  then have "GetLocation ` (set is \<union> set o1) \<subseteq> GetLocation ` (set (i # is) \<union> set outp)"
    by auto
  with Cons.prems have "agrees dir tol (GetLocation ` (set is \<union> set o1))"
    by (rule agrees_subset)
  then have "construction_loop_with dir tol factor is o1 p1 = construction_loop tol factor is o1 p1"
    by (rule Cons.IH)
  with r w show ?case by simp
qed

lemma partition_loop_with_eq:
  "agrees dir (tolerance g) (GetLocation ` (insert (left g) (insert (right g) (set js)))) \<Longrightarrow>
   partition_loop_with dir loclast js g = partition_loop loclast js g"
proof (induction js arbitrary: loclast g)
  case Nil
  then show ?case by simp
next
  case (Cons i js)
  have d: "dir (GetLocation (left g)) (GetLocation (right g)) (GetLocation i) (tolerance g)
           = Direction (GetLocation (left g)) (GetLocation (right g)) (GetLocation i) (tolerance g)"
    using Cons.prems by (rule agreesD) simp_all
  have s: "agrees dir (tolerance g) (GetLocation ` (insert (left g) (insert (right g) (set js))))"
    using Cons.prems by (rule agrees_subset) auto
  have u: "partition_loop_with dir l js (g\<lparr>upper_partition_points := v\<rparr>)
             = partition_loop l js (g\<lparr>upper_partition_points := v\<rparr>)" for l v
    using s by (intro Cons.IH) simp
  have w: "partition_loop_with dir l js (g\<lparr>lower_partition_points := v\<rparr>)
             = partition_loop l js (g\<lparr>lower_partition_points := v\<rparr>)" for l v
    using s by (intro Cons.IH) simp
  have k: "partition_loop_with dir l js g = partition_loop l js g" for l
    using s by (rule Cons.IH)
  show ?case
    by (simp only: partition_loop_with.simps partition_loop.simps d u w k Let_def)
qed

lemma set_sort_raw_points: "set (sort_raw_points sps) = set sps"
  by (simp add: sort_raw_points_def)

lemma sorted_parts_subset:
  assumes "2 \<le> length sps"
  shows "extreme_left sps \<in> set sps" "extreme_right sps \<in> set sps"
    "set (between sps) \<subseteq> set sps"
proof -
  have "set sps = set (extreme_left sps # between sps @ [extreme_right sps])"
    using sort_raw_points_split[OF assms] set_sort_raw_points[of sps] by simp
  then show "extreme_left sps \<in> set sps" "extreme_right sps \<in> set sps"
    "set (between sps) \<subseteq> set sps"
    by auto
qed

lemma kept_subset: "2 \<le> length sps \<Longrightarrow> set (kept sps) \<subseteq> set sps"
  using kept_subset_between[of sps] sorted_parts_subset(3)[of sps] by blast

lemma PartitionPoints_with_init:
  assumes two: "2 \<le> length sps"
    and agr: "agrees dir tol (GetLocation ` set sps)"
  shows "PartitionPoints_with dir (GrahamScan_init sps tol l0 r0)
           = PartitionPoints (GrahamScan_init sps tol l0 r0)"
proof -
  let ?g1 = "(GrahamScan_init sps tol l0 r0)
               \<lparr>left := hd (sort_raw_points sps), right := last (sort_raw_points sps)\<rparr>"
  have f: "left ?g1 = extreme_left sps" "right ?g1 = extreme_right sps" "tolerance ?g1 = tol"
    by (simp_all add: extreme_left_def extreme_right_def GrahamScan_init_def)
  have "insert (left ?g1) (insert (right ?g1) (set (between sps))) \<subseteq> set sps"
    unfolding f using sorted_parts_subset[OF two] by blast
  then have "GetLocation ` insert (left ?g1) (insert (right ?g1) (set (between sps)))
               \<subseteq> GetLocation ` set sps" by (rule image_mono)
  with agr have "agrees dir (tolerance ?g1)
                   (GetLocation ` insert (left ?g1) (insert (right ?g1) (set (between sps))))"
    unfolding f(3) by (rule agrees_subset)
  then have "partition_loop_with dir l (between sps) ?g1 = partition_loop l (between sps) ?g1"
    for l by (rule partition_loop_with_eq)
  then show ?thesis
    by (simp add: PartitionPoints_with_def PartitionPoints_def Let_def between_def
        GrahamScan_init_def)
qed

lemma BuildHalfHull_with_eq:
  assumes "agrees dir (tolerance g)
             (GetLocation ` (set inp \<union> set outp \<union> {left g, right g}))"
  shows "BuildHalfHull_with dir g inp outp factor = BuildHalfHull g inp outp factor"
proof -
  have "GetLocation ` (set (inp @ [right g]) \<union> set (outp @ [left g]))
          \<subseteq> GetLocation ` (set inp \<union> set outp \<union> {left g, right g})"
    by (rule image_mono) auto
  with assms have "agrees dir (tolerance g)
                     (GetLocation ` (set (inp @ [right g]) \<union> set (outp @ [left g])))"
    by (rule agrees_subset)
  then have "construction_loop_with dir (tolerance g) factor (inp @ [right g]) (outp @ [left g]) False
               = construction_loop (tolerance g) factor (inp @ [right g]) (outp @ [left g]) False"
    by (rule construction_loop_with_eq)
  then show ?thesis
    by (simp only: BuildHalfHull_with_def BuildHalfHull_def Let_def)
qed

lemma BuildHull_with_partitioned:
  assumes two: "2 \<le> length sps"
    and agr: "agrees dir tol (GetLocation ` set sps)"
  shows "BuildHull_with dir (partitioned sps tol) = BuildHull (partitioned sps tol)"
proof -
  let ?g = "partitioned sps tol"
  note sub = sorted_parts_subset[OF two] kept_subset[OF two]
  have lp: "set (lower_points sps tol) \<subseteq> set sps" "set (upper_points sps tol) \<subseteq> set sps"
    using sub(4) by (auto simp: lower_points_def upper_points_def)
  have hh: "BuildHalfHull_with dir g inp [] factor = BuildHalfHull g inp [] factor"
    if "tolerance g = tol" "left g = extreme_left sps" "right g = extreme_right sps"
      "set inp \<subseteq> set sps" for g :: "'a GrahamScan" and inp factor
  proof -
    have "set inp \<union> set [] \<union> {left g, right g} \<subseteq> set sps"
      using that sub(1,2) by auto
    then have "GetLocation ` (set inp \<union> set [] \<union> {left g, right g}) \<subseteq> GetLocation ` set sps"
      by (rule image_mono)
    with agr have "agrees dir (tolerance g)
                     (GetLocation ` (set inp \<union> set [] \<union> {left g, right g}))"
      unfolding that(1) by (rule agrees_subset)
    then show ?thesis by (rule BuildHalfHull_with_eq)
  qed
  have first: "BuildHalfHull_with dir ?g (lower_partition_points ?g) (lower_hull ?g) 1
                 = BuildHalfHull ?g (lower_partition_points ?g) (lower_hull ?g) 1"
    using lp(1) by (simp add: partitioned_def hh)
  have second: "BuildHalfHull_with dir (?g\<lparr>lower_partition_points := li, lower_hull := lo\<rparr>)
                    (upper_partition_points ?g) (upper_hull ?g) (- 1)
                 = BuildHalfHull (?g\<lparr>lower_partition_points := li, lower_hull := lo\<rparr>)
                    (upper_partition_points ?g) (upper_hull ?g) (- 1)" for li lo
    using lp(2) by (simp add: partitioned_def hh)
  show ?thesis
    unfolding BuildHull_with_def BuildHull_def first
    by (simp add: Let_def second split: prod.splits)
qed

lemma PruneInterior_with_init:
  assumes agr: "agrees dir tol (GetLocation ` set sps)"
  shows "PruneInterior_with dir (GrahamScan_init sps tol l0 r0)
           = PruneInterior (GrahamScan_init sps tol l0 r0)"
proof (cases "length sps < 3")
  case True
  then show ?thesis
    by (simp add: PruneInterior_with_def PruneInterior_def GrahamScan_init_def)
next
  case False
  then have two: "2 \<le> length sps" by simp
  have p: "PartitionPoints_with dir (GrahamScan_init sps tol l0 r0) = Inr (partitioned sps tol)"
    "PartitionPoints (GrahamScan_init sps tol l0 r0) = Inr (partitioned sps tol)"
    using PartitionPoints_with_init[OF two agr] PartitionPoints_init[OF two] by simp_all
  note b = BuildHull_with_partitioned[OF two agr]
  show ?thesis
    unfolding PruneInterior_with_def PruneInterior_def p by (simp only: b sum.case)
qed

lemma reassembled_subset:
  assumes three: "3 \<le> length sps"
    and pr: "snd (lower_build sps tol) \<or> snd (upper_build sps tol)"
  shows "set (reassembled sps tol) \<subseteq> set sps"
proof -
  have two: "2 \<le> length sps" using three by simp
  let ?L = "extreme_left sps" and ?R = "extreme_right sps"
  obtain lo up where h:
    "fst (lower_build sps tol) = ?L # lo @ [?R]"
    "fst (upper_build sps tol) = ?L # up @ [?R]"
    "reassembled sps tol = ?L # lo @ ?R # rev up"
    "sorted_wrt (<) (map sort_position (?L # lo @ [?R]))"
    "sorted_wrt (<) (map sort_position (?L # up @ [?R]))"
    "\<forall>e\<in>set lo. \<not> is_upper sps tol e" "\<forall>e\<in>set up. is_upper sps tol e"
    "chain_ok tol 1 (?L # lo @ [?R])"
    "chain_ok tol (- 1) (?L # up @ [?R])"
    "subseq lo (kept sps)" "subseq up (kept sps)"
    by (rule hull_facts[OF three pr])
  have "set lo \<subseteq> set sps" "set up \<subseteq> set sps"
    using subseq_set_subset[OF h(10)] subseq_set_subset[OF h(11)] kept_subset[OF two]
    by blast+
  then show ?thesis
    unfolding h(3) using sorted_parts_subset(1,2)[OF two] by auto
qed

subsection \<open>Integer coordinates\<close>

lemma small_integer_pointE:
  assumes "small_integer_point p"
  obtains i j :: int where "longitude p = of_int i" "latitude p = of_int j"
    "\<bar>i\<bar> \<le> 2 ^ 24" "\<bar>j\<bar> \<le> 2 ^ 24"
proof -
  let ?i = "\<lfloor>longitude p\<rfloor>" and ?j = "\<lfloor>latitude p\<rfloor>"
  from assms have e: "longitude p = of_int ?i" "latitude p = of_int ?j"
    and b: "\<bar>longitude p\<bar> \<le> 2 ^ 24" "\<bar>latitude p\<bar> \<le> 2 ^ 24"
    unfolding small_integer_point_def by (blast intro: sym)+
  have "\<bar>of_int ?i :: real\<bar> \<le> 2 ^ 24" using b(1) e(1) by simp
  then have "(of_int \<bar>?i\<bar> :: real) \<le> of_int (2 ^ 24)" by simp
  then have i: "\<bar>?i\<bar> \<le> 2 ^ 24" by (simp only: of_int_le_iff)
  have "\<bar>of_int ?j :: real\<bar> \<le> 2 ^ 24" using b(2) e(2) by simp
  then have "(of_int \<bar>?j\<bar> :: real) \<le> of_int (2 ^ 24)" by simp
  then have j: "\<bar>?j\<bar> \<le> 2 ^ 24" by (simp only: of_int_le_iff)
  from e i j show thesis by (rule that)
qed

lemma product_bound:
  fixes u v :: int
  assumes "\<bar>u\<bar> \<le> 2 ^ 25" "\<bar>v\<bar> \<le> 2 ^ 25"
  shows "\<bar>u * v\<bar> \<le> 2 ^ 50"
proof -
  have "\<bar>u\<bar> * \<bar>v\<bar> \<le> 2 ^ 25 * 2 ^ 25"
    using assms by (intro mult_mono) simp_all
  then show ?thesis by (simp add: abs_mult)
qed

lemma Direction_double_small:
  assumes p: "small_integer_point p0" "small_integer_point p1" "small_integer_point p2"
    and tol: "0 \<le> tol"
  shows "Direction_double p0 p1 p2 tol = Direction p0 p1 p2 tol"
proof -
  from p(1) obtain i0 j0 where c0: "longitude p0 = of_int i0" "latitude p0 = of_int j0"
    and b0: "\<bar>i0\<bar> \<le> 2 ^ 24" "\<bar>j0\<bar> \<le> 2 ^ 24" by (rule small_integer_pointE)
  from p(2) obtain i1 j1 where c1: "longitude p1 = of_int i1" "latitude p1 = of_int j1"
    and b1: "\<bar>i1\<bar> \<le> 2 ^ 24" "\<bar>j1\<bar> \<le> 2 ^ 24" by (rule small_integer_pointE)
  from p(3) obtain i2 j2 where c2: "longitude p2 = of_int i2" "latitude p2 = of_int j2"
    and b2: "\<bar>i2\<bar> \<le> 2 ^ 24" "\<bar>j2\<bar> \<le> 2 ^ 24" by (rule small_integer_pointE)
  define ax ay bx by' where "ax = i0 - i1" and "ay = j0 - j1" and "bx = i2 - i1"
    and "by' = j2 - j1"
  have d: "\<bar>ax\<bar> \<le> 2 ^ 25" "\<bar>ay\<bar> \<le> 2 ^ 25" "\<bar>bx\<bar> \<le> 2 ^ 25" "\<bar>by'\<bar> \<le> 2 ^ 25"
    using b0 b1 b2 by (simp_all add: ax_def ay_def bx_def by'_def)
  have m: "\<bar>ax * by'\<bar> \<le> 2 ^ 50" "\<bar>bx * ay\<bar> \<le> 2 ^ 50"
    using d by (simp_all only: product_bound)
  have s: "\<bar>ax * by' - bx * ay\<bar> \<le> 2 ^ 51" using m by simp
  have r1: "round_double (longitude p0 - longitude p1) = of_int ax"
    using round_double_of_int[of ax] d(1) by (simp add: c0 c1 ax_def)
  have r2: "round_double (latitude p0 - latitude p1) = of_int ay"
    using round_double_of_int[of ay] d(2) by (simp add: c0 c1 ay_def)
  have r3: "round_double (longitude p2 - longitude p1) = of_int bx"
    using round_double_of_int[of bx] d(3) by (simp add: c2 c1 bx_def)
  have r4: "round_double (latitude p2 - latitude p1) = of_int by'"
    using round_double_of_int[of by'] d(4) by (simp add: c2 c1 by'_def)
  have r5: "round_double (of_int ax * of_int by') = of_int (ax * by')"
    using round_double_of_int[of "ax * by'"] m(1) by simp
  have r6: "round_double (of_int bx * of_int ay) = of_int (bx * ay)"
    using round_double_of_int[of "bx * ay"] m(2) by simp
  have r7: "round_double (of_int (ax * by') - of_int (bx * ay)) = of_int (ax * by' - bx * ay)"
    using round_double_of_int[of "ax * by' - bx * ay"] s by simp
  have dd: "Direction_double p0 p1 p2 tol = Sign (of_int (ax * by' - bx * ay)) tol"
    unfolding Direction_double_def GeoPoint_minus_double_def Let_def GeoPoint.select_convs
      r1 r2 r3 r4 r5 r6 r7
    using tol by simp
  have "Direction p0 p1 p2 tol = Sign (of_int (ax * by' - bx * ay)) tol"
    unfolding Direction_def Let_def GeoPoint_minus_def GeoPoint.select_convs c0 c1 c2
    using tol by (simp add: ax_def ay_def bx_def by'_def)
  with dd show ?thesis by simp
qed

lemma agrees_small:
  assumes "\<forall>p\<in>S. small_integer_point p" "0 \<le> tol"
  shows "agrees Direction_double tol S"
  unfolding agrees_def using assms by (simp add: Direction_double_small)

lemma square_agrees: "agrees Direction_double 0 (GetLocation ` set square_with_centre)"
  by (rule agrees_small)
     (simp_all add: square_with_centre_def sample_point_def GetLocation_def
        small_integer_point_def)

subsection \<open>The run on the input where rounding changes a turn\<close>

lemmas rounding_points =
  rounding_p0_def rounding_p1_def rounding_p2_def rounding_p3_def rounding_p4_def

lemmas rounding_elements =
  rounding_e0_def rounding_e1_def rounding_e2_def rounding_e3_def rounding_e4_def

lemma Direction_double_231:
  "Direction_double rounding_p2 rounding_p3 rounding_p1 0 = - 1"
proof -
  have r1: "round_double (0 - (5404319552844595 / 9007199254740992)) = (- (5404319552844595 / 9007199254740992))"
    using round_double_near[of 1021 "0 - (5404319552844595 / 9007199254740992)" "(- 5404319552844595)"] by simp
  have r2: "round_double ((5404319552844595 / 18014398509481984) - (8106479329266893 / 9007199254740992)) = (- (1351079888211149 / 2251799813685248))"
    using round_double_tie[of 1021 "(5404319552844595 / 18014398509481984) - (8106479329266893 / 9007199254740992)" "(- 5404319552844596)"] by simp
  have r3: "round_double ((3602879701896397 / 18014398509481984) - (5404319552844595 / 9007199254740992)) = (- (7205759403792793 / 18014398509481984))"
    using round_double_near[of 1020 "(3602879701896397 / 18014398509481984) - (5404319552844595 / 9007199254740992)" "(- 7205759403792793)"] by simp
  have r4: "round_double ((1 / 2) - (8106479329266893 / 9007199254740992)) = (- (3602879701896397 / 9007199254740992))"
    using round_double_near[of 1020 "(1 / 2) - (8106479329266893 / 9007199254740992)" "(- 7205759403792794)"] by simp
  have r5: "round_double ((- (5404319552844595 / 9007199254740992)) * (- (3602879701896397 / 9007199254740992))) = (1080863910568919 / 4503599627370496)"
    using round_double_near[of 1019 "(- (5404319552844595 / 9007199254740992)) * (- (3602879701896397 / 9007199254740992))" "8646911284551352"] by simp
  have r6: "round_double ((- (7205759403792793 / 18014398509481984)) * (- (1351079888211149 / 2251799813685248))) = (8646911284551353 / 36028797018963968)"
    using round_double_near[of 1019 "(- (7205759403792793 / 18014398509481984)) * (- (1351079888211149 / 2251799813685248))" "8646911284551353"] by simp
  have r7: "round_double ((1080863910568919 / 4503599627370496) - (8646911284551353 / 36028797018963968)) = (- (1 / 36028797018963968))"
    using round_double_near[of 967 "(1080863910568919 / 4503599627370496) - (8646911284551353 / 36028797018963968)" "(- 4503599627370496)"] by simp
  show ?thesis
    unfolding Direction_double_def GeoPoint_minus_double_def Let_def rounding_points
      GeoPoint.select_convs
      r1 r2 r3 r4 r5 r6 r7
    by (simp add: Sign_def)
qed

lemma Direction_double_234:
  "Direction_double rounding_p2 rounding_p3 rounding_p4 0 = 1"
proof -
  have r1: "round_double (0 - (5404319552844595 / 9007199254740992)) = (- (5404319552844595 / 9007199254740992))"
    using round_double_near[of 1021 "0 - (5404319552844595 / 9007199254740992)" "(- 5404319552844595)"] by simp
  have r2: "round_double ((5404319552844595 / 18014398509481984) - (8106479329266893 / 9007199254740992)) = (- (1351079888211149 / 2251799813685248))"
    using round_double_tie[of 1021 "(5404319552844595 / 18014398509481984) - (8106479329266893 / 9007199254740992)" "(- 5404319552844596)"] by simp
  have r3: "round_double ((5404319552844595 / 18014398509481984) - (5404319552844595 / 9007199254740992)) = (- (5404319552844595 / 18014398509481984))"
    using round_double_near[of 1020 "(5404319552844595 / 18014398509481984) - (5404319552844595 / 9007199254740992)" "(- 5404319552844595)"] by simp
  have r4: "round_double ((3602879701896397 / 9007199254740992) - (8106479329266893 / 9007199254740992)) = (- (1 / 2))"
    using round_double_near[of 1021 "(3602879701896397 / 9007199254740992) - (8106479329266893 / 9007199254740992)" "(- 4503599627370496)"] by simp
  have r5: "round_double ((- (5404319552844595 / 9007199254740992)) * (- (1 / 2))) = (5404319552844595 / 18014398509481984)"
    using round_double_near[of 1020 "(- (5404319552844595 / 9007199254740992)) * (- (1 / 2))" "5404319552844595"] by simp
  have r6: "round_double ((- (5404319552844595 / 18014398509481984)) * (- (1351079888211149 / 2251799813685248))) = (6485183463413515 / 36028797018963968)"
    using round_double_near[of 1019 "(- (5404319552844595 / 18014398509481984)) * (- (1351079888211149 / 2251799813685248))" "6485183463413515"] by simp
  have r7: "round_double ((5404319552844595 / 18014398509481984) - (6485183463413515 / 36028797018963968)) = (4323455642275675 / 36028797018963968)"
    using round_double_near[of 1018 "(5404319552844595 / 18014398509481984) - (6485183463413515 / 36028797018963968)" "8646911284551350"] by simp
  show ?thesis
    unfolding Direction_double_def GeoPoint_minus_double_def Let_def rounding_points
      GeoPoint.select_convs
      r1 r2 r3 r4 r5 r6 r7
    by (simp add: Sign_def)
qed

lemma Direction_double_230:
  "Direction_double rounding_p2 rounding_p3 rounding_p0 0 = 1"
proof -
  have r1: "round_double (0 - (5404319552844595 / 9007199254740992)) = (- (5404319552844595 / 9007199254740992))"
    using round_double_near[of 1021 "0 - (5404319552844595 / 9007199254740992)" "(- 5404319552844595)"] by simp
  have r2: "round_double ((5404319552844595 / 18014398509481984) - (8106479329266893 / 9007199254740992)) = (- (1351079888211149 / 2251799813685248))"
    using round_double_tie[of 1021 "(5404319552844595 / 18014398509481984) - (8106479329266893 / 9007199254740992)" "(- 5404319552844596)"] by simp
  have r3: "round_double ((1 / 2) - (5404319552844595 / 9007199254740992)) = (- (900719925474099 / 9007199254740992))"
    using round_double_near[of 1018 "(1 / 2) - (5404319552844595 / 9007199254740992)" "(- 7205759403792792)"] by simp
  have r4: "round_double ((3602879701896397 / 36028797018963968) - (8106479329266893 / 9007199254740992)) = (- (3602879701896397 / 4503599627370496))"
    using round_double_near[of 1021 "(3602879701896397 / 36028797018963968) - (8106479329266893 / 9007199254740992)" "(- 7205759403792794)"] by simp
  have r5: "round_double ((- (5404319552844595 / 9007199254740992)) * (- (3602879701896397 / 4503599627370496))) = (1080863910568919 / 2251799813685248)"
    using round_double_near[of 1020 "(- (5404319552844595 / 9007199254740992)) * (- (3602879701896397 / 4503599627370496))" "8646911284551352"] by simp
  have r6: "round_double ((- (900719925474099 / 9007199254740992)) * (- (1351079888211149 / 2251799813685248))) = (1080863910568919 / 18014398509481984)"
    using round_double_near[of 1017 "(- (900719925474099 / 9007199254740992)) * (- (1351079888211149 / 2251799813685248))" "8646911284551352"] by simp
  have r7: "round_double ((1080863910568919 / 2251799813685248) - (1080863910568919 / 18014398509481984)) = (7566047373982433 / 18014398509481984)"
    using round_double_near[of 1020 "(1080863910568919 / 2251799813685248) - (1080863910568919 / 18014398509481984)" "7566047373982433"] by simp
  show ?thesis
    unfolding Direction_double_def GeoPoint_minus_double_def Let_def rounding_points
      GeoPoint.select_convs
      r1 r2 r3 r4 r5 r6 r7
    by (simp add: Sign_def)
qed

lemma Direction_double_204:
  "Direction_double rounding_p2 rounding_p0 rounding_p4 0 = - 1"
proof -
  have r1: "round_double (0 - (1 / 2)) = (- (1 / 2))"
    using round_double_near[of 1021 "0 - (1 / 2)" "(- 4503599627370496)"] by simp
  have r2: "round_double ((5404319552844595 / 18014398509481984) - (3602879701896397 / 36028797018963968)) = (7205759403792793 / 36028797018963968)"
    using round_double_near[of 1019 "(5404319552844595 / 18014398509481984) - (3602879701896397 / 36028797018963968)" "7205759403792793"] by simp
  have r3: "round_double ((5404319552844595 / 18014398509481984) - (1 / 2)) = (- (3602879701896397 / 18014398509481984))"
    using round_double_near[of 1019 "(5404319552844595 / 18014398509481984) - (1 / 2)" "(- 7205759403792794)"] by simp
  have r4: "round_double ((3602879701896397 / 9007199254740992) - (3602879701896397 / 36028797018963968)) = (1351079888211149 / 4503599627370496)"
    using round_double_tie[of 1020 "(3602879701896397 / 9007199254740992) - (3602879701896397 / 36028797018963968)" "5404319552844595"] by simp
  have r5: "round_double ((- (1 / 2)) * (1351079888211149 / 4503599627370496)) = (- (1351079888211149 / 9007199254740992))"
    using round_double_near[of 1019 "(- (1 / 2)) * (1351079888211149 / 4503599627370496)" "(- 5404319552844596)"] by simp
  have r6: "round_double ((- (3602879701896397 / 18014398509481984)) * (7205759403792793 / 36028797018963968)) = (- (5764607523034235 / 144115188075855872))"
    using round_double_near[of 1017 "(- (3602879701896397 / 18014398509481984)) * (7205759403792793 / 36028797018963968)" "(- 5764607523034235)"] by simp
  have r7: "round_double ((- (1351079888211149 / 9007199254740992)) - (- (5764607523034235 / 144115188075855872))) = (- (3963167672086037 / 36028797018963968))"
    using round_double_tie[of 1018 "(- (1351079888211149 / 9007199254740992)) - (- (5764607523034235 / 144115188075855872))" "(- 7926335344172075)"] by simp
  show ?thesis
    unfolding Direction_double_def GeoPoint_minus_double_def Let_def rounding_points
      GeoPoint.select_convs
      r1 r2 r3 r4 r5 r6 r7
    by (simp add: Sign_def)
qed

lemma Direction_double_203:
  "Direction_double rounding_p2 rounding_p0 rounding_p3 0 = - 1"
proof -
  have r1: "round_double (0 - (1 / 2)) = (- (1 / 2))"
    using round_double_near[of 1021 "0 - (1 / 2)" "(- 4503599627370496)"] by simp
  have r2: "round_double ((5404319552844595 / 18014398509481984) - (3602879701896397 / 36028797018963968)) = (7205759403792793 / 36028797018963968)"
    using round_double_near[of 1019 "(5404319552844595 / 18014398509481984) - (3602879701896397 / 36028797018963968)" "7205759403792793"] by simp
  have r3: "round_double ((5404319552844595 / 9007199254740992) - (1 / 2)) = (900719925474099 / 9007199254740992)"
    using round_double_near[of 1018 "(5404319552844595 / 9007199254740992) - (1 / 2)" "7205759403792792"] by simp
  have r4: "round_double ((8106479329266893 / 9007199254740992) - (3602879701896397 / 36028797018963968)) = (3602879701896397 / 4503599627370496)"
    using round_double_near[of 1021 "(8106479329266893 / 9007199254740992) - (3602879701896397 / 36028797018963968)" "7205759403792794"] by simp
  have r5: "round_double ((- (1 / 2)) * (3602879701896397 / 4503599627370496)) = (- (3602879701896397 / 9007199254740992))"
    using round_double_near[of 1020 "(- (1 / 2)) * (3602879701896397 / 4503599627370496)" "(- 7205759403792794)"] by simp
  have r6: "round_double ((900719925474099 / 9007199254740992) * (7205759403792793 / 36028797018963968)) = (5764607523034233 / 288230376151711744)"
    using round_double_near[of 1016 "(900719925474099 / 9007199254740992) * (7205759403792793 / 36028797018963968)" "5764607523034233"] by simp
  have r7: "round_double ((- (3602879701896397 / 9007199254740992)) - (5764607523034233 / 288230376151711744)) = (- (3783023686991217 / 9007199254740992))"
    using round_double_near[of 1020 "(- (3602879701896397 / 9007199254740992)) - (5764607523034233 / 288230376151711744)" "(- 7566047373982434)"] by simp
  show ?thesis
    unfolding Direction_double_def GeoPoint_minus_double_def Let_def rounding_points
      GeoPoint.select_convs
      r1 r2 r3 r4 r5 r6 r7
    by (simp add: Sign_def)
qed

lemma Direction_double_312:
  "Direction_double rounding_p3 rounding_p1 rounding_p2 0 = 1"
proof -
  have r1: "round_double ((5404319552844595 / 9007199254740992) - (3602879701896397 / 18014398509481984)) = (7205759403792793 / 18014398509481984)"
    using round_double_near[of 1020 "(5404319552844595 / 9007199254740992) - (3602879701896397 / 18014398509481984)" "7205759403792793"] by simp
  have r2: "round_double ((8106479329266893 / 9007199254740992) - (1 / 2)) = (3602879701896397 / 9007199254740992)"
    using round_double_near[of 1020 "(8106479329266893 / 9007199254740992) - (1 / 2)" "7205759403792794"] by simp
  have r3: "round_double (0 - (3602879701896397 / 18014398509481984)) = (- (3602879701896397 / 18014398509481984))"
    using round_double_near[of 1019 "0 - (3602879701896397 / 18014398509481984)" "(- 7205759403792794)"] by simp
  have r4: "round_double ((5404319552844595 / 18014398509481984) - (1 / 2)) = (- (3602879701896397 / 18014398509481984))"
    using round_double_near[of 1019 "(5404319552844595 / 18014398509481984) - (1 / 2)" "(- 7205759403792794)"] by simp
  have r5: "round_double ((7205759403792793 / 18014398509481984) * (- (3602879701896397 / 18014398509481984))) = (- (5764607523034235 / 72057594037927936))"
    using round_double_near[of 1018 "(7205759403792793 / 18014398509481984) * (- (3602879701896397 / 18014398509481984))" "(- 5764607523034235)"] by simp
  have r6: "round_double ((- (3602879701896397 / 18014398509481984)) * (3602879701896397 / 9007199254740992)) = (- (1441151880758559 / 18014398509481984))"
    using round_double_near[of 1018 "(- (3602879701896397 / 18014398509481984)) * (3602879701896397 / 9007199254740992)" "(- 5764607523034236)"] by simp
  have r7: "round_double ((- (5764607523034235 / 72057594037927936)) - (- (1441151880758559 / 18014398509481984))) = (1 / 72057594037927936)"
    using round_double_near[of 966 "(- (5764607523034235 / 72057594037927936)) - (- (1441151880758559 / 18014398509481984))" "4503599627370496"] by simp
  show ?thesis
    unfolding Direction_double_def GeoPoint_minus_double_def Let_def rounding_points
      GeoPoint.select_convs
      r1 r2 r3 r4 r5 r6 r7
    by (simp add: Sign_def)
qed

lemma Direction_double_321:
  "Direction_double rounding_p3 rounding_p2 rounding_p1 0 = - 1"
proof -
  have r1: "round_double ((5404319552844595 / 9007199254740992) - 0) = (5404319552844595 / 9007199254740992)"
    using round_double_near[of 1021 "(5404319552844595 / 9007199254740992) - 0" "5404319552844595"] by simp
  have r2: "round_double ((8106479329266893 / 9007199254740992) - (5404319552844595 / 18014398509481984)) = (1351079888211149 / 2251799813685248)"
    using round_double_tie[of 1021 "(8106479329266893 / 9007199254740992) - (5404319552844595 / 18014398509481984)" "5404319552844595"] by simp
  have r3: "round_double ((3602879701896397 / 18014398509481984) - 0) = (3602879701896397 / 18014398509481984)"
    using round_double_near[of 1019 "(3602879701896397 / 18014398509481984) - 0" "7205759403792794"] by simp
  have r4: "round_double ((1 / 2) - (5404319552844595 / 18014398509481984)) = (3602879701896397 / 18014398509481984)"
    using round_double_near[of 1019 "(1 / 2) - (5404319552844595 / 18014398509481984)" "7205759403792794"] by simp
  have r5: "round_double ((5404319552844595 / 9007199254740992) * (3602879701896397 / 18014398509481984)) = (1080863910568919 / 9007199254740992)"
    using round_double_near[of 1018 "(5404319552844595 / 9007199254740992) * (3602879701896397 / 18014398509481984)" "8646911284551352"] by simp
  have r6: "round_double ((3602879701896397 / 18014398509481984) * (1351079888211149 / 2251799813685248)) = (4323455642275677 / 36028797018963968)"
    using round_double_near[of 1018 "(3602879701896397 / 18014398509481984) * (1351079888211149 / 2251799813685248)" "8646911284551354"] by simp
  have r7: "round_double ((1080863910568919 / 9007199254740992) - (4323455642275677 / 36028797018963968)) = (- (1 / 36028797018963968))"
    using round_double_near[of 967 "(1080863910568919 / 9007199254740992) - (4323455642275677 / 36028797018963968)" "(- 4503599627370496)"] by simp
  show ?thesis
    unfolding Direction_double_def GeoPoint_minus_double_def Let_def rounding_points
      GeoPoint.select_convs
      r1 r2 r3 r4 r5 r6 r7
    by (simp add: Sign_def)
qed

lemma rounding_locations:
  "GetLocation rounding_e0 = rounding_p0" "GetLocation rounding_e1 = rounding_p1"
  "GetLocation rounding_e2 = rounding_p2" "GetLocation rounding_e3 = rounding_p3"
  "GetLocation rounding_e4 = rounding_p4"
  by (simp_all add: rounding_elements GetLocation_def)

lemma rounding_coordinates:
  "longitude rounding_p0 = 1 / 2" "latitude rounding_p0 = 3602879701896397 / 36028797018963968"
  "longitude rounding_p1 = 3602879701896397 / 18014398509481984" "latitude rounding_p1 = 1 / 2"
  "longitude rounding_p2 = 0" "latitude rounding_p2 = 5404319552844595 / 18014398509481984"
  "longitude rounding_p3 = 5404319552844595 / 9007199254740992"
  "latitude rounding_p3 = 8106479329266893 / 9007199254740992"
  "longitude rounding_p4 = 5404319552844595 / 18014398509481984"
  "latitude rounding_p4 = 3602879701896397 / 9007199254740992"
  by (simp_all add: rounding_points)

lemma rounding_sorted:
  "sort_raw_points rounding_input
     = [rounding_e2, rounding_e1, rounding_e4, rounding_e0, rounding_e3]"
  by (simp add: rounding_input_def sort_raw_points_def sort_position_def rounding_locations
      rounding_coordinates less_eq_prod_def)

lemma rounding_partition:
  "PartitionPoints_with Direction_double (GrahamScan_init rounding_input 0 rounding_e0 rounding_e0)
     = Inr ((GrahamScan_init rounding_input 0 rounding_e0 rounding_e0)
              \<lparr>left := rounding_e2, right := rounding_e3,
               lower_partition_points := [rounding_e4, rounding_e0],
               upper_partition_points := [rounding_e1]\<rparr>)"
  by (simp add: PartitionPoints_with_def rounding_sorted Let_def GrahamScan_init_def
      rounding_locations rounding_coordinates
      Direction_double_231 Direction_double_234 Direction_double_230)

lemma rounding_nearest:
  "round_double (1 / 2) = longitude rounding_p0" "round_double (1 / 10) = latitude rounding_p0"
  "round_double (1 / 5) = longitude rounding_p1" "round_double (1 / 2) = latitude rounding_p1"
  "round_double 0 = longitude rounding_p2" "round_double (3 / 10) = latitude rounding_p2"
  "round_double (3 / 5) = longitude rounding_p3" "round_double (9 / 10) = latitude rounding_p3"
  "round_double (3 / 10) = longitude rounding_p4" "round_double (2 / 5) = latitude rounding_p4"
proof -
  have r1: "round_double (1 / 10) = 3602879701896397 / 36028797018963968"
    using round_double_near[of 1018 "1 / 10" "7205759403792794"] by simp
  have r2: "round_double (1 / 5) = 3602879701896397 / 18014398509481984"
    using round_double_near[of 1019 "1 / 5" "7205759403792794"] by simp
  have r3: "round_double (3 / 10) = 5404319552844595 / 18014398509481984"
    using round_double_near[of 1020 "3 / 10" "5404319552844595"] by simp
  have r4: "round_double (2 / 5) = 3602879701896397 / 9007199254740992"
    using round_double_near[of 1020 "2 / 5" "7205759403792794"] by simp
  have r5: "round_double (1 / 2) = 1 / 2"
    using round_double_near[of 1021 "1 / 2" "4503599627370496"] by simp
  have r6: "round_double (3 / 5) = 5404319552844595 / 9007199254740992"
    using round_double_near[of 1021 "3 / 5" "5404319552844595"] by simp
  have r7: "round_double (9 / 10) = 8106479329266893 / 9007199254740992"
    using round_double_near[of 1021 "9 / 10" "8106479329266893"] by simp
  have r8: "round_double 0 = 0" using round_double_of_int[of 0] by simp
  show "round_double (1 / 2) = longitude rounding_p0" "round_double (1 / 10) = latitude rounding_p0"
    "round_double (1 / 5) = longitude rounding_p1" "round_double (1 / 2) = latitude rounding_p1"
    "round_double 0 = longitude rounding_p2" "round_double (3 / 10) = latitude rounding_p2"
    "round_double (3 / 5) = longitude rounding_p3" "round_double (9 / 10) = latitude rounding_p3"
    "round_double (3 / 10) = longitude rounding_p4" "round_double (2 / 5) = latitude rounding_p4"
    unfolding rounding_coordinates r1 r2 r3 r4 r5 r6 r7 r8 by (rule refl)+
qed

lemma rounding_run:
  "PruneInterior_with Direction_double (GrahamScan_init rounding_input 0 rounding_e0 rounding_e0)
     = Inr (True, rounding_result)"
  unfolding PruneInterior_with_def rounding_partition
  by (simp add: BuildHull_with_def BuildHalfHull_with_def Let_def GrahamScan_init_def
      restore_convexity_with.simps erase_at_def rounding_locations
      Direction_double_204 Direction_double_230 Direction_double_231
      rounding_input_def rounding_result_def copy_lower.simps)

lemma rounding_inside:
  "strictly_inside_hull rounding_p1 {rounding_p2, rounding_p0, rounding_p3, rounding_p1}"
  unfolding strictly_inside_hull_def
proof (intro allI impI)
  fix dlon dlat :: real
  assume nz: "dlon \<noteq> 0 \<or> dlat \<noteq> 0"
  let ?f = "\<lambda>q. dlon * (longitude q - longitude rounding_p1)
                + dlat * (latitude q - latitude rounding_p1)"
  have "0 < ?f rounding_p2 \<or> 0 < ?f rounding_p0 \<or> 0 < ?f rounding_p3"
  proof (rule ccontr)
    assume "\<not> (0 < ?f rounding_p2 \<or> 0 < ?f rounding_p0 \<or> 0 < ?f rounding_p3)"
    then have le: "?f rounding_p2 \<le> 0" "?f rounding_p0 \<le> 0" "?f rounding_p3 \<le> 0"
      by simp_all
    have i2: "0 \<le> dlon + dlat"
      using le(1) unfolding rounding_coordinates by (simp add: algebra_simps)
    have i0: "10808639105689190 * dlon \<le> 14411518807585587 * dlat"
      using le(2) unfolding rounding_coordinates by (simp add: algebra_simps)
    have i3: "14411518807585586 * dlon + 14411518807585588 * dlat \<le> 0"
      using le(3) unfolding rounding_coordinates by (simp add: algebra_simps)
    from i2 i3 have "dlat \<le> 0" by simp
    with i0 have "dlon \<le> 0" by simp
    with \<open>dlat \<le> 0\<close> i2 have "dlon = 0" "dlat = 0" by simp_all
    then show False using nz by simp
  qed
  then show "\<exists>q\<in>{rounding_p2, rounding_p0, rounding_p3, rounding_p1}. 0 < ?f q"
    by blast
qed

section \<open>Verified properties\<close>

subsection \<open>The orientation test\<close>

text \<open>
  C3: for all points and every tolerance, \<open>Direction\<close> is the sign, with the symmetric
  dead zone, of the difference of the two products a and b, under the given tolerance
  when that is non-negative and under a tenth of the larger of |a| and |b| when it is
  negative.
\<close>

theorem Direction_refines_spec:
  "Direction p0 p1 p2 tol = spec_Direction p0 p1 p2 tol"
proof -
  have a: "longitude (GeoPoint_minus p0 p1) * latitude (GeoPoint_minus p2 p1)
             = spec_product_a p0 p1 p2"
    by (simp only: spec_product_a_def)
  have b: "longitude (GeoPoint_minus p2 p1) * latitude (GeoPoint_minus p0 p1)
             = spec_product_b p0 p1 p2"
    by (simp only: spec_product_b_def)
  have t: "(if tol < 0
            then max \<bar>spec_product_a p0 p1 p2\<bar> \<bar>spec_product_b p0 p1 p2\<bar> / 10
            else tol) = spec_tolerance p0 p1 p2 tol"
    unfolding spec_tolerance_def by (cases "tol < 0") (simp_all add: not_le)
  have s: "Sign v u = spec_Sign v u" for v u
    by (simp only: Sign_def spec_Sign_def)
  show ?thesis
    by (simp only: Direction_def Let_def a b t s spec_Direction_def)
qed

subsection \<open>The partition\<close>

text \<open>
  C4: of the elements the loop retains, exactly those whose direction against the line
  from left to right is strictly negative are in the upper chain, and exactly those
  whose direction is zero or positive are in the lower chain, each chain in sorted
  order; a retained element of direction zero is in the lower chain.
\<close>

theorem PartitionPoints_classifies:
  assumes "PartitionPoints (GrahamScan_init sps tol l0 r0) = Inr g"
  shows "upper_partition_points g =
           filter (\<lambda>e. Direction (GetLocation (left g)) (GetLocation (right g))
                         (GetLocation e) tol < 0)
             (retained (GetLocation (left g)) (between sps)) \<and>
         lower_partition_points g =
           filter (\<lambda>e. 0 \<le> Direction (GetLocation (left g)) (GetLocation (right g))
                         (GetLocation e) tol)
             (retained (GetLocation (left g)) (between sps)) \<and>
         {e \<in> set (retained (GetLocation (left g)) (between sps)).
            Direction (GetLocation (left g)) (GetLocation (right g)) (GetLocation e) tol = 0}
           \<subseteq> set (lower_partition_points g)"
proof -
  from PartitionPoints_result[OF assms] have g: "g = partitioned sps tol" by simp
  have n: "(\<lambda>e. \<not> is_upper sps tol e) =
           (\<lambda>e. 0 \<le> Direction (GetLocation (extreme_left sps)) (GetLocation (extreme_right sps))
                  (GetLocation e) tol)"
    by (auto simp: is_upper_def fun_eq_iff)
  show ?thesis
    unfolding g partitioned_chains n
    by (auto simp: kept_def is_upper_fun)
qed

theorem PartitionPoints_classifies_witness:
  "PartitionPoints (GrahamScan_init with_duplicates 0 (sample_point 0 0 9) (sample_point 0 0 9))
     = Inr with_duplicates_partitioned \<and>
   retained (GetLocation (left with_duplicates_partitioned)) (between with_duplicates)
     = [sample_point 1 (- 1) 5, sample_point 1 1 1] \<and>
   upper_partition_points with_duplicates_partitioned =
     filter (\<lambda>e. Direction (GetLocation (left with_duplicates_partitioned))
                   (GetLocation (right with_duplicates_partitioned)) (GetLocation e) 0 < 0)
       [sample_point 1 (- 1) 5, sample_point 1 1 1] \<and>
   lower_partition_points with_duplicates_partitioned =
     filter (\<lambda>e. 0 \<le> Direction (GetLocation (left with_duplicates_partitioned))
                   (GetLocation (right with_duplicates_partitioned)) (GetLocation e) 0)
       [sample_point 1 (- 1) 5, sample_point 1 1 1]"
proof -
  have h: "PartitionPoints
             (GrahamScan_init with_duplicates 0 (sample_point 0 0 9) (sample_point 0 0 9))
             = Inr with_duplicates_partitioned"
    by (simp add: with_duplicates_def with_duplicates_partitioned_def run_defs)
  have r: "retained (GetLocation (left with_duplicates_partitioned)) (between with_duplicates)
             = [sample_point 1 (- 1) 5, sample_point 1 1 1]"
    by (simp add: with_duplicates_def with_duplicates_partitioned_def between_def run_defs)
  from PartitionPoints_classifies[OF h] h r show ?thesis by simp
qed

text \<open>
  C5: the elements of the two chains together are the sorted non-extreme elements whose
  location differs from that of the element just before them in the sorted order (left
  before the first); that is what skipping every element equal in location to the last
  distinct location, started at left's, retains. The locations of left and of the
  retained elements are the sorted locations with consecutive duplicates collapsed, and
  they are pairwise distinct.
\<close>

theorem PartitionPoints_collapses_duplicates:
  assumes "PartitionPoints (GrahamScan_init sps tol l0 r0) = Inr g"
  shows "(let chain = spec_collapse (left g) (between sps) in
          chain = retained (GetLocation (left g)) (between sps) \<and>
          mset (upper_partition_points g) + mset (lower_partition_points g) = mset chain \<and>
          subseq (upper_partition_points g) chain \<and>
          subseq (lower_partition_points g) chain \<and>
          map GetLocation (left g # chain) = remdups_adj (map GetLocation (left g # between sps)) \<and>
          distinct (map GetLocation (left g # chain)))"
proof -
  from PartitionPoints_result[OF assms] have two: "2 \<le> length sps"
    and g: "g = partitioned sps tol" by simp_all
  have c: "spec_collapse (extreme_left sps) (between sps) = kept sps"
    unfolding kept_def by (rule retained_spec_collapse[symmetric]) simp
  have m: "mset (filter (is_upper sps tol) (kept sps)) +
           mset (filter (\<lambda>e. \<not> is_upper sps tol e) (kept sps)) = mset (kept sps)"
    by simp
  have r: "map GetLocation (extreme_left sps # kept sps)
             = remdups_adj (map GetLocation (extreme_left sps # between sps))"
    unfolding kept_def using retained_remdups_adj[of "GetLocation (extreme_left sps)" "between sps"]
    by simp
  have d: "distinct (map GetLocation (extreme_left sps # kept sps))"
    using kept_strict[OF two] by (rule distinct_locations_of_strict)
  show ?thesis
    unfolding g partitioned_chains Let_def c
    using m r d by (simp add: kept_def)
qed

theorem PartitionPoints_collapses_duplicates_witness:
  "PartitionPoints (GrahamScan_init with_duplicates 0 (sample_point 0 0 9) (sample_point 0 0 9))
     = Inr with_duplicates_partitioned \<and>
   between with_duplicates =
     [sample_point 0 0 4, sample_point 1 (- 1) 5, sample_point 1 1 1, sample_point 1 1 2] \<and>
   spec_collapse (left with_duplicates_partitioned) (between with_duplicates)
     = [sample_point 1 (- 1) 5, sample_point 1 1 1] \<and>
   mset (upper_partition_points with_duplicates_partitioned) +
     mset (lower_partition_points with_duplicates_partitioned)
     = mset [sample_point 1 (- 1) 5, sample_point 1 1 1]"
proof -
  have h: "PartitionPoints
             (GrahamScan_init with_duplicates 0 (sample_point 0 0 9) (sample_point 0 0 9))
             = Inr with_duplicates_partitioned"
    by (simp add: with_duplicates_def with_duplicates_partitioned_def run_defs)
  have b: "between with_duplicates =
     [sample_point 0 0 4, sample_point 1 (- 1) 5, sample_point 1 1 1, sample_point 1 1 2]"
    by (simp add: with_duplicates_def between_def run_defs)
  have r: "spec_collapse (left with_duplicates_partitioned) (between with_duplicates)
             = [sample_point 1 (- 1) 5, sample_point 1 1 1]"
    unfolding b
    by (simp add: with_duplicates_partitioned_def spec_collapse_def run_defs)
  from PartitionPoints_collapses_duplicates[OF h] h b r show ?thesis
    by (simp add: Let_def)
qed

subsection \<open>Runs that leave the sequence alone\<close>

text \<open>
  C8: for every boundary sequence with fewer than three elements and every tolerance,
  \<open>PruneInterior\<close> returns false at once; the whole instance, and with it the sequence,
  is as the constructor left it, so nothing was partitioned or built.
\<close>

theorem PruneInterior_fewer_than_three:
  "length sps < 3 \<Longrightarrow>
   PruneInterior (GrahamScan_init sps tol l0 r0) = Inr (False, GrahamScan_init sps tol l0 r0)"
  by (simp add: PruneInterior_def GrahamScan_init_def)

theorem PruneInterior_fewer_than_three_witness:
  "length [sample_point 0 0 0, sample_point 1 1 1] < 3 \<and>
   PruneInterior (GrahamScan_init [sample_point 0 0 0, sample_point 1 1 1] (- 1)
       (sample_point 7 7 7) (sample_point 8 8 8))
     = Inr (False, GrahamScan_init [sample_point 0 0 0, sample_point 1 1 1] (- 1)
         (sample_point 7 7 7) (sample_point 8 8 8))"
  using PruneInterior_fewer_than_three
    [of "[sample_point 0 0 0, sample_point 1 1 1]" "- 1" "sample_point 7 7 7" "sample_point 8 8 8"]
  by simp

text \<open>
  C7: whenever both calls of \<open>BuildHalfHull\<close> report that they discarded no point,
  \<open>PruneInterior\<close> returns false and the boundary sequence is, element for element, the
  one it was given.
\<close>

theorem PruneInterior_nothing_pruned:
  assumes "PartitionPoints (GrahamScan_init sps tol l0 r0) = Inr g1"
    and "BuildHalfHull g1 (lower_partition_points g1) (lower_hull g1) 1
           = (False, lower_in, lower_out)"
    and "BuildHalfHull (g1\<lparr>lower_partition_points := lower_in, lower_hull := lower_out\<rparr>)
           (upper_partition_points g1) (upper_hull g1) (- 1) = (False, upper_in, upper_out)"
  shows "\<exists>g'. PruneInterior (GrahamScan_init sps tol l0 r0) = Inr (False, g') \<and>
              raw_vector g' = sps"
proof (cases "length sps < 3")
  case True
  then show ?thesis
    by (simp add: PruneInterior_small raw_vector_init)
next
  case False
  then have "PartitionPoints (GrahamScan_init sps tol l0 r0) = Inr (partitioned sps tol)"
    by (simp add: PartitionPoints_init)
  with assms(1) have "g1 = partitioned sps tol" by simp
  then have g1: "raw_vector g1 = sps"
    by (simp add: partitioned_def)
  have "\<not> size_u (GrahamScan_init sps tol l0 r0) < 3"
    using False by (simp add: GrahamScan_init_def)
  then show ?thesis
    unfolding PruneInterior_def using assms g1
    by (simp add: BuildHull_def Let_def)
qed

theorem PruneInterior_nothing_pruned_witness:
  "\<exists>g1 lower_in lower_out upper_in upper_out.
     PartitionPoints (GrahamScan_init triangle 0 (sample_point 0 0 9) (sample_point 0 0 9)) = Inr g1 \<and>
     BuildHalfHull g1 (lower_partition_points g1) (lower_hull g1) 1
       = (False, lower_in, lower_out) \<and>
     BuildHalfHull (g1\<lparr>lower_partition_points := lower_in, lower_hull := lower_out\<rparr>)
       (upper_partition_points g1) (upper_hull g1) (- 1) = (False, upper_in, upper_out) \<and>
     (\<exists>g'. PruneInterior (GrahamScan_init triangle 0 (sample_point 0 0 9) (sample_point 0 0 9))
              = Inr (False, g') \<and> raw_vector g' = triangle)"
proof -
  let ?g1 = "\<lparr>raw_vector = triangle, size_u = 3, tolerance = 0,
      left = sample_point 0 0 0, right = sample_point 2 0 2,
      lower_partition_points = [], upper_partition_points = [sample_point 1 1 1],
      lower_hull = [], upper_hull = []\<rparr> :: nat GrahamScan"
  have p: "PartitionPoints (GrahamScan_init triangle 0 (sample_point 0 0 9) (sample_point 0 0 9))
             = Inr ?g1"
    by (simp add: triangle_def run_defs)
  have l: "BuildHalfHull ?g1 (lower_partition_points ?g1) (lower_hull ?g1) 1
             = (False, [sample_point 2 0 2], [sample_point 0 0 0, sample_point 2 0 2])"
    by (simp add: run_defs)
  have u: "BuildHalfHull
             (?g1\<lparr>lower_partition_points := [sample_point 2 0 2],
                   lower_hull := [sample_point 0 0 0, sample_point 2 0 2]\<rparr>)
             (upper_partition_points ?g1) (upper_hull ?g1) (- 1)
             = (False, [sample_point 1 1 1, sample_point 2 0 2],
                [sample_point 0 0 0, sample_point 1 1 1, sample_point 2 0 2])"
    by (simp add: run_defs)
  from PruneInterior_nothing_pruned[OF p l u] p l u show ?thesis by blast
qed

subsection \<open>The size of the result\<close>

text \<open>
  C9: for every input and tolerance \<open>PruneInterior\<close> returns normally (the assertion on
  the size of the reassembled sequence never fails, and no other error branch is
  taken), and the sequence it leaves is at most as long as the one it was given.
\<close>

theorem PruneInterior_size_monotone:
  "\<exists>b g'. PruneInterior (GrahamScan_init sps tol l0 r0) = Inr (b, g') \<and>
          length (raw_vector g') \<le> length sps"
proof (cases "length sps < 3")
  case True
  then show ?thesis
    by (intro exI[of _ False] exI[of _ "GrahamScan_init sps tol l0 r0"])
       (simp add: PruneInterior_small raw_vector_init)
next
  case False
  then have three: "3 \<le> length sps" by simp
  show ?thesis
    using length_reassembled(1)[OF three, of tol]
    by (auto simp: PruneInterior_init[OF three] built_def)
qed

theorem PruneInterior_size_monotone_witness:
  "PruneInterior (GrahamScan_init square_with_centre 0 (sample_point 0 0 9) (sample_point 0 0 9))
     = Inr (True, square_pruned) \<and>
   length (raw_vector square_pruned) \<le> length square_with_centre"
proof -
  from PruneInterior_size_monotone
    [of square_with_centre 0 "sample_point 0 0 9" "sample_point 0 0 9"]
  have "length (raw_vector square_pruned) \<le> length square_with_centre"
    by (simp add: square_run)
  then show ?thesis by (simp add: square_run)
qed

text \<open>
  C10: whenever \<open>PruneInterior\<close> returns true, the sequence it leaves is strictly shorter
  than the one it was given.
\<close>

theorem PruneInterior_true_shrinks:
  assumes "PruneInterior (GrahamScan_init sps tol l0 r0) = Inr (True, g')"
  shows "length (raw_vector g') < length sps"
proof (cases "length sps < 3")
  case True
  with assms show ?thesis by (simp add: PruneInterior_small)
next
  case False
  then have three: "3 \<le> length sps" by simp
  from assms have pr: "snd (lower_build sps tol) \<or> snd (upper_build sps tol)"
    and g': "g' = (built sps tol)\<lparr>raw_vector := reassembled sps tol\<rparr>"
    by (auto simp: PruneInterior_init[OF three] split: if_splits)
  show ?thesis
    using length_reassembled(2)[OF three pr] by (simp add: g')
qed

theorem PruneInterior_true_shrinks_witness:
  "PruneInterior (GrahamScan_init square_with_centre 0 (sample_point 0 0 9) (sample_point 0 0 9))
     = Inr (True, square_pruned) \<and>
   length (raw_vector square_pruned) < length square_with_centre"
  using PruneInterior_true_shrinks[OF square_run] square_run by simp

subsection \<open>The reassembled sequence\<close>

text \<open>
  C2: when \<open>PruneInterior\<close> returns true, the sequence is \<open>lower_hull\<close> without its last
  element followed by \<open>upper_hull\<close> read back to front without the last element so
  read. The element left out of \<open>lower_hull\<close> is right; the one left out of
  \<open>upper_hull\<close> is its element at index 0, which is left and is also the first element of
  \<open>lower_hull\<close>. So the sequence is left, the interior of the lower chain in ascending
  sort order, right, and the interior of the upper chain in descending sort order; no
  two of its elements have the same location, so each endpoint occurs once.
\<close>

theorem PruneInterior_reassembles:
  assumes "PruneInterior (GrahamScan_init sps tol l0 r0) = Inr (True, g')"
  shows "raw_vector g' = butlast (lower_hull g') @ butlast (rev (upper_hull g')) \<and>
         last (lower_hull g') = right g' \<and>
         last (rev (upper_hull g')) = left g' \<and>
         hd (lower_hull g') = left g' \<and>
         (\<exists>lo up. lower_hull g' = left g' # lo @ [right g'] \<and>
                  upper_hull g' = left g' # up @ [right g'] \<and>
                  raw_vector g' = left g' # lo @ right g' # rev up \<and>
                  sorted_wrt (<) (map sort_position (left g' # lo @ [right g'])) \<and>
                  sorted_wrt (<) (map sort_position (left g' # up @ [right g']))) \<and>
         distinct (map GetLocation (raw_vector g'))"
proof -
  note r = PruneInterior_true_result[OF assms]
  let ?L = "extreme_left sps" and ?R = "extreme_right sps"
  obtain lo up where h:
    "fst (lower_build sps tol) = ?L # lo @ [?R]"
    "fst (upper_build sps tol) = ?L # up @ [?R]"
    "reassembled sps tol = ?L # lo @ ?R # rev up"
    "sorted_wrt (<) (map sort_position (?L # lo @ [?R]))"
    "sorted_wrt (<) (map sort_position (?L # up @ [?R]))"
    "\<forall>e\<in>set lo. \<not> is_upper sps tol e" "\<forall>e\<in>set up. is_upper sps tol e"
    by (rule hull_facts[OF r(1) r(2)])
  have f: "lower_hull g' = ?L # lo @ [?R]" "upper_hull g' = ?L # up @ [?R]"
    "raw_vector g' = ?L # lo @ ?R # rev up" "left g' = ?L" "right g' = ?R"
    by (simp_all add: r(3) built_def h(1,2,3))
  have "distinct (map sort_position (?L # lo @ ?R # rev up))"
    using h(4,5,6,7) by (rule reassembled_distinct_positions)
  then have d: "distinct (map GetLocation (raw_vector g'))"
    unfolding f(3) by (rule distinct_positions_locations)
  have a: "raw_vector g' = butlast (lower_hull g') @ butlast (rev (upper_hull g'))"
    unfolding f by (simp add: butlast_append)
  have b: "last (lower_hull g') = right g'" "last (rev (upper_hull g')) = left g'"
    "hd (lower_hull g') = left g'"
    unfolding f by simp_all
  have c: "\<exists>lo up. lower_hull g' = left g' # lo @ [right g'] \<and>
                  upper_hull g' = left g' # up @ [right g'] \<and>
                  raw_vector g' = left g' # lo @ right g' # rev up \<and>
                  sorted_wrt (<) (map sort_position (left g' # lo @ [right g'])) \<and>
                  sorted_wrt (<) (map sort_position (left g' # up @ [right g']))"
    unfolding f using h(4,5) by blast
  from a b c d show ?thesis by blast
qed

theorem PruneInterior_reassembles_witness:
  "PruneInterior (GrahamScan_init square_with_centre 0 (sample_point 0 0 9) (sample_point 0 0 9))
     = Inr (True, square_pruned) \<and>
   raw_vector square_pruned =
     butlast (lower_hull square_pruned) @ butlast (rev (upper_hull square_pruned)) \<and>
   last (rev (upper_hull square_pruned)) = left square_pruned \<and>
   distinct (map GetLocation (raw_vector square_pruned))"
  using PruneInterior_reassembles[OF square_run] square_run by blast

subsection \<open>Idempotence\<close>

text \<open>
  C6: for every boundary sequence and tolerance, \<open>PruneInterior\<close> returns normally, and
  a second run (a new instance, same tolerance) on the sequence the first run left
  returns false and leaves that sequence as it is, whether the first run returned true
  or false.
\<close>

theorem PruneInterior_idempotent:
  "\<exists>b g'. PruneInterior (GrahamScan_init sps tol l0 r0) = Inr (b, g') \<and>
     (\<exists>g''. PruneInterior (GrahamScan_init (raw_vector g') tol l1 r1) = Inr (False, g'') \<and>
            raw_vector g'' = raw_vector g')"
proof (cases "length sps < 3")
  case True
  then have "PruneInterior (GrahamScan_init sps tol l0 r0)
               = Inr (False, GrahamScan_init sps tol l0 r0)"
    and "PruneInterior (GrahamScan_init sps tol l1 r1)
               = Inr (False, GrahamScan_init sps tol l1 r1)"
    by (simp_all add: PruneInterior_small)
  then show ?thesis
    by (intro exI[of _ False] exI[of _ "GrahamScan_init sps tol l0 r0"])
       (simp add: raw_vector_init)
next
  case False
  then have three: "3 \<le> length sps" by simp
  show ?thesis
  proof (cases "snd (lower_build sps tol) \<or> snd (upper_build sps tol)")
    case pr: True
    have first: "PruneInterior (GrahamScan_init sps tol l0 r0)
                   = Inr (True, (built sps tol)\<lparr>raw_vector := reassembled sps tol\<rparr>)"
      using pr by (simp add: PruneInterior_init[OF three])
    from rerun_PruneInterior[OF three pr, of l1 r1] obtain g'' where
      second: "PruneInterior (GrahamScan_init (reassembled sps tol) tol l1 r1) = Inr (False, g'')"
        "raw_vector g'' = reassembled sps tol"
      by blast
    show ?thesis
      by (intro exI[of _ True] exI[of _ "(built sps tol)\<lparr>raw_vector := reassembled sps tol\<rparr>"])
         (simp add: first second)
  next
    case npr: False
    have first: "PruneInterior (GrahamScan_init sps tol l0 r0) = Inr (False, built sps tol)"
      and second: "PruneInterior (GrahamScan_init sps tol l1 r1) = Inr (False, built sps tol)"
      using npr by (simp_all add: PruneInterior_init[OF three])
    have rv: "raw_vector (built sps tol) = sps" by (simp add: built_def)
    from first second show ?thesis
      by (intro exI[of _ False] exI[of _ "built sps tol"]) (simp add: rv)
  qed
qed

theorem PruneInterior_idempotent_witness:
  "PruneInterior (GrahamScan_init square_with_centre 0 (sample_point 0 0 9) (sample_point 0 0 9))
     = Inr (True, square_pruned) \<and>
   (\<exists>g''. PruneInterior (GrahamScan_init (raw_vector square_pruned) 0
              (sample_point 1 1 8) (sample_point 2 2 8)) = Inr (False, g'') \<and>
          raw_vector g'' = raw_vector square_pruned)"
proof -
  from PruneInterior_idempotent
    [of square_with_centre 0 "sample_point 0 0 9" "sample_point 0 0 9"
        "sample_point 1 1 8" "sample_point 2 2 8"]
  obtain b g' where
    "PruneInterior (GrahamScan_init square_with_centre 0 (sample_point 0 0 9) (sample_point 0 0 9))
       = Inr (b, g')"
    "\<exists>g''. PruneInterior (GrahamScan_init (raw_vector g') 0
              (sample_point 1 1 8) (sample_point 2 2 8)) = Inr (False, g'') \<and>
          raw_vector g'' = raw_vector g'"
    by blast
  with square_run show ?thesis by simp
qed

subsection \<open>Convexity of the result\<close>

text \<open>
  C1, as amended: let the orientation test in double arithmetic decide every triple of
  locations of the input as the exact test does (as it does when all coordinates are
  integers of magnitude at most 2^24 and the tolerance is not negative). When
  \<open>PruneInterior\<close>, run in double arithmetic, returns true, every three consecutive
  elements of the resulting sequence, taken cyclically, turn the same way as far as
  \<open>Direction\<close> in double arithmetic with the given tolerance can tell: with its
  arguments in sequence order the direction is never positive, and with the arguments in
  the order the construction loop uses (first, third, second) it is never negative. No
  element of the result lies strictly inside the convex hull of the result.
\<close>

theorem PruneInterior_double_convex:
  assumes agr: "agrees Direction_double tol (GetLocation ` set sps)"
    and run: "PruneInterior_with Direction_double (GrahamScan_init sps tol l0 r0)
                = Inr (True, g')"
  shows "(\<forall>i<length (raw_vector g').
            Direction_double (GetLocation (raw_vector g' ! i))
              (GetLocation (raw_vector g' ! ((i + 1) mod length (raw_vector g'))))
              (GetLocation (raw_vector g' ! ((i + 2) mod length (raw_vector g')))) tol \<le> 0 \<and>
            0 \<le> Direction_double (GetLocation (raw_vector g' ! i))
              (GetLocation (raw_vector g' ! ((i + 2) mod length (raw_vector g'))))
              (GetLocation (raw_vector g' ! ((i + 1) mod length (raw_vector g')))) tol) \<and>
         (\<forall>p\<in>set (raw_vector g').
            \<not> strictly_inside_hull (GetLocation p) (GetLocation ` set (raw_vector g')))"
proof -
  from run have exact: "PruneInterior (GrahamScan_init sps tol l0 r0) = Inr (True, g')"
    by (simp only: PruneInterior_with_init[OF agr])
  note r = PruneInterior_true_result[OF exact]
  note c = PruneInterior_convex_exact[OF exact]
  let ?res = "raw_vector g'"
  let ?n = "length ?res"
  have "?res = reassembled sps tol" by (simp add: r(3))
  then have sub: "set ?res \<subseteq> set sps" using reassembled_subset[OF r(1) r(2)] by simp
  have mem: "GetLocation (?res ! k) \<in> GetLocation ` set sps" if "k < ?n" for k
    using that sub by (meson imageI nth_mem subsetD)
  have turn: "Direction_double (GetLocation (?res ! i)) (GetLocation (?res ! ((i + 1) mod ?n)))
                (GetLocation (?res ! ((i + 2) mod ?n))) tol \<le> 0 \<and>
              0 \<le> Direction_double (GetLocation (?res ! i)) (GetLocation (?res ! ((i + 2) mod ?n)))
                (GetLocation (?res ! ((i + 1) mod ?n))) tol" if i: "i < ?n" for i
  proof -
    have pos: "0 < ?n" using i by auto
    have m0: "GetLocation (?res ! i) \<in> GetLocation ` set sps" using i by (rule mem)
    have m1: "GetLocation (?res ! ((i + 1) mod ?n)) \<in> GetLocation ` set sps"
      by (rule mem, rule mod_less_divisor, rule pos)
    have m2: "GetLocation (?res ! ((i + 2) mod ?n)) \<in> GetLocation ` set sps"
      by (rule mem, rule mod_less_divisor, rule pos)
    from c i have "Direction (GetLocation (?res ! i)) (GetLocation (?res ! ((i + 1) mod ?n)))
                (GetLocation (?res ! ((i + 2) mod ?n))) tol \<le> 0 \<and>
              0 \<le> Direction (GetLocation (?res ! i)) (GetLocation (?res ! ((i + 2) mod ?n)))
                (GetLocation (?res ! ((i + 1) mod ?n))) tol" by blast
    then show ?thesis
      by (simp only: agreesD[OF agr m0 m1 m2] agreesD[OF agr m0 m2 m1])
  qed
  from turn c show ?thesis by blast
qed

theorem PruneInterior_double_convex_witness:
  "agrees Direction_double 0 (GetLocation ` set square_with_centre) \<and>
   PruneInterior_with Direction_double
     (GrahamScan_init square_with_centre 0 (sample_point 0 0 9) (sample_point 0 0 9))
     = Inr (True, square_pruned) \<and>
   Direction_double (GetLocation (raw_vector square_pruned ! 3))
     (GetLocation (raw_vector square_pruned ! 0))
     (GetLocation (raw_vector square_pruned ! 1)) 0 \<le> 0 \<and>
   \<not> strictly_inside_hull (GetLocation (sample_point 0 0 0))
       (GetLocation ` set (raw_vector square_pruned))"
proof -
  have run: "PruneInterior_with Direction_double
     (GrahamScan_init square_with_centre 0 (sample_point 0 0 9) (sample_point 0 0 9))
     = Inr (True, square_pruned)"
    using PruneInterior_with_init[OF square_agrees] square_run by simp
  note c = PruneInterior_double_convex[OF square_agrees run]
  have n: "length (raw_vector square_pruned) = 4" by (simp add: square_pruned_def)
  have "3 < length (raw_vector square_pruned)" by (simp add: n)
  from c[THEN conjunct1, rule_format, OF this]
  have "Direction_double (GetLocation (raw_vector square_pruned ! 3))
     (GetLocation (raw_vector square_pruned ! ((3 + 1) mod length (raw_vector square_pruned))))
     (GetLocation (raw_vector square_pruned ! ((3 + 2) mod length (raw_vector square_pruned))))
     0 \<le> 0"
    by (rule conjunct1)
  then have d: "Direction_double (GetLocation (raw_vector square_pruned ! 3))
     (GetLocation (raw_vector square_pruned ! 0))
     (GetLocation (raw_vector square_pruned ! 1)) 0 \<le> 0" by (simp add: n)
  have "sample_point 0 0 0 \<in> set (raw_vector square_pruned)"
    by (simp add: square_pruned_def)
  with c have "\<not> strictly_inside_hull (GetLocation (sample_point 0 0 0))
       (GetLocation ` set (raw_vector square_pruned))" by blast
  with d run square_agrees show ?thesis by blast
qed

text \<open>
  Without that agreement the property fails. On five points whose coordinates are the
  doubles nearest to one-digit decimals, with tolerance 0, the run in double arithmetic
  returns true with a four-element sequence in which the turns at the first and at the
  third element have opposite signs, in sequence order as well as in the order of the
  construction loop, and whose last element lies strictly inside the hull of the other
  three: rounding makes the test on the two extremes and that element negative where the
  exact value is positive, so the element is put on the upper side and stays.
\<close>

theorem PruneInterior_double_not_convex:
  "PruneInterior_with Direction_double (GrahamScan_init rounding_input 0 rounding_e0 rounding_e0)
     = Inr (True, rounding_result) \<and>
   Direction_double (GetLocation (raw_vector rounding_result ! 0))
     (GetLocation (raw_vector rounding_result ! 1))
     (GetLocation (raw_vector rounding_result ! 2)) 0 = - 1 \<and>
   Direction_double (GetLocation (raw_vector rounding_result ! 2))
     (GetLocation (raw_vector rounding_result ! 3))
     (GetLocation (raw_vector rounding_result ! 0)) 0 = 1 \<and>
   Direction_double (GetLocation (raw_vector rounding_result ! 0))
     (GetLocation (raw_vector rounding_result ! 2))
     (GetLocation (raw_vector rounding_result ! 1)) 0 = 1 \<and>
   Direction_double (GetLocation (raw_vector rounding_result ! 2))
     (GetLocation (raw_vector rounding_result ! 0))
     (GetLocation (raw_vector rounding_result ! 3)) 0 = - 1 \<and>
   strictly_inside_hull (GetLocation (raw_vector rounding_result ! 3))
     (GetLocation ` set (raw_vector rounding_result))"
proof -
  have rv: "raw_vector rounding_result = [rounding_e2, rounding_e0, rounding_e3, rounding_e1]"
    by (simp add: rounding_result_def)
  have n: "[rounding_e2, rounding_e0, rounding_e3, rounding_e1] ! 0 = rounding_e2"
    "[rounding_e2, rounding_e0, rounding_e3, rounding_e1] ! 1 = rounding_e0"
    "[rounding_e2, rounding_e0, rounding_e3, rounding_e1] ! 2 = rounding_e3"
    "[rounding_e2, rounding_e0, rounding_e3, rounding_e1] ! 3 = rounding_e1"
    by simp_all
  have s: "GetLocation ` set [rounding_e2, rounding_e0, rounding_e3, rounding_e1]
             = {rounding_p2, rounding_p0, rounding_p3, rounding_p1}"
    by (simp add: rounding_locations)
  show ?thesis
    unfolding rv n s rounding_locations
    using rounding_run Direction_double_203 Direction_double_312 Direction_double_230
      Direction_double_321 rounding_inside
    by blast
qed

end
